theory Spec2Isabelle
  imports Complex_Main
begin

section \<open>Numbers and vectors\<close>

text \<open>
  The C type \<open>float\<close> is idealised as a real number: arithmetic is exact and there is no
  rounding. A C array \<open>float[3]\<close> is a triple. Where the collision tests divide, a zero
  divisor is a case of its own in the model (see the primitive tests below). The other
  divisions, by a path duration, a vector length, a ball radius or the time step, are
  plain divisions, and the properties that depend on them assume the divisor is not
  zero.
\<close>

type_synonym vec = "real \<times> real \<times> real"

definition LARGE :: real where
  "LARGE = 100000"

definition SMALL :: real where
  "SMALL = 1 / 1000"

text \<open>
  Modelled from the spec: the vector helpers of \<open>vec3.h\<close> (\<open>v_dot\<close>, \<open>v_len\<close>, \<open>v_cpy\<close>,
  \<open>v_scl\<close>, \<open>v_add\<close>, \<open>v_sub\<close>, \<open>v_mad\<close>, \<open>v_crs\<close>, \<open>v_nrm\<close>) are not part of the source
  file; they are the closed-form 3-D vector operations the spec names. The functions
  \<open>fsqrtf\<close> and \<open>fabsf\<close> of the source are the square root and the absolute value.
\<close>

fun v_dot :: "vec \<Rightarrow> vec \<Rightarrow> real" where
  "v_dot (u0, u1, u2) (v0, v1, v2) = u0 * v0 + u1 * v1 + u2 * v2"

fun v_scl :: "vec \<Rightarrow> real \<Rightarrow> vec" where
  "v_scl (v0, v1, v2) k = (v0 * k, v1 * k, v2 * k)"

fun v_add :: "vec \<Rightarrow> vec \<Rightarrow> vec" where
  "v_add (u0, u1, u2) (v0, v1, v2) = (u0 + v0, u1 + v1, u2 + v2)"

fun v_sub :: "vec \<Rightarrow> vec \<Rightarrow> vec" where
  "v_sub (u0, u1, u2) (v0, v1, v2) = (u0 - v0, u1 - v1, u2 - v2)"

fun v_mad :: "vec \<Rightarrow> vec \<Rightarrow> real \<Rightarrow> vec" where
  "v_mad (p0, p1, p2) (v0, v1, v2) t = (p0 + v0 * t, p1 + v1 * t, p2 + v2 * t)"

fun v_crs :: "vec \<Rightarrow> vec \<Rightarrow> vec" where
  "v_crs (u0, u1, u2) (v0, v1, v2) =
     (u1 * v2 - u2 * v1, u2 * v0 - u0 * v2, u0 * v1 - u1 * v0)"

definition v_len :: "vec \<Rightarrow> real" where
  "v_len u = sqrt (v_dot u u)"

definition v_nrm :: "vec \<Rightarrow> vec" where
  "v_nrm u = v_scl u (1 / v_len u)"

definition v_zero :: vec where
  "v_zero = (0, 0, 0)"

section \<open>The level\<close>

text \<open>
  The structures of \<open>solid.h\<close>, with the fields the physics code reads or writes. Field
  names carry the structure's name as a prefix, since several structures share the names
  \<open>p\<close>, \<open>t\<close>, \<open>pi\<close>, \<open>f\<close> and \<open>r\<close>. An array of the level together with its count
  (\<open>uv\<close> and \<open>uc\<close>, ...) is a list; the count is its length.
\<close>

record s_vert =
  vert_p :: vec

record s_edge =
  edge_vi :: int
  edge_vj :: int

record s_side =
  side_n :: vec
  side_d :: real

record s_lump =
  lump_fl :: int
  lump_v0 :: int
  lump_vc :: int
  lump_e0 :: int
  lump_ec :: int
  lump_s0 :: int
  lump_sc :: int

record s_node =
  node_si :: int
  node_ni :: int
  node_nj :: int
  node_l0 :: int
  node_lc :: int

record s_path =
  path_p :: vec
  path_t :: real
  path_pi :: int
  path_f :: int
  path_s :: int

record s_body =
  body_t :: real
  body_pi :: int
  body_ni :: int

record s_item =
  item_p :: vec
  item_t :: int
  item_n :: int

record s_swch =
  swch_p :: vec
  swch_r :: real
  swch_pi :: int
  swch_t0 :: real
  swch_t :: real
  swch_f0 :: int
  swch_f :: int
  swch_i :: int
  swch_e :: int

record s_ball =
  ball_e :: "vec \<times> vec \<times> vec"
  ball_p :: vec
  ball_v :: vec
  ball_w :: vec
  ball_E :: "vec \<times> vec \<times> vec"
  ball_W :: vec
  ball_r :: real

record s_file =
  vv :: "s_vert list"
  ev :: "s_edge list"
  sv :: "s_side list"
  lv :: "s_lump list"
  nv :: "s_node list"
  pv :: "s_path list"
  bv :: "s_body list"
  hv :: "s_item list"
  xv :: "s_swch list"
  uv :: "s_ball list"
  iv :: "int list"

text \<open>Reading \<open>a[i]\<close> for a C \<open>int\<close> index.\<close>

definition rd :: "'a list \<Rightarrow> int \<Rightarrow> 'a" where
  "rd xs i = xs ! nat i"

definition in_range :: "'a list \<Rightarrow> int \<Rightarrow> bool" where
  "in_range xs i = (0 \<le> i \<and> i < int (length xs))"

section \<open>Body motion\<close>

definition erp :: "real \<Rightarrow> real" where
  "erp t = 3 * t * t - 2 * t * t * t"

definition derp :: "real \<Rightarrow> real" where
  "derp t = 6 * t - 6 * t * t"

definition sol_body_v :: "s_file \<Rightarrow> s_body \<Rightarrow> vec" where
  "sol_body_v fp bp =
     (if body_pi bp \<ge> 0 \<and> path_f (rd (pv fp) (body_pi bp)) \<noteq> 0 then
        (let pp = rd (pv fp) (body_pi bp);
             pq = rd (pv fp) (path_pi pp);
             v = v_sub (path_p pq) (path_p pp);
             v = v_scl v (1 / path_t pp)
         in if path_s pp \<noteq> 0 then v_scl v (derp (body_t bp / path_t pp)) else v)
      else (0, 0, 0))"

definition sol_body_p :: "s_file \<Rightarrow> s_body \<Rightarrow> vec" where
  "sol_body_p fp bp =
     (if body_pi bp \<ge> 0 then
        (let pp = rd (pv fp) (body_pi bp);
             pq = rd (pv fp) (path_pi pp)
         in if path_s pp \<noteq> 0 then
              (let v = v_sub (path_p pq) (path_p pp)
               in v_mad (path_p pp) v (erp (body_t bp / path_t pp)))
            else
              (let v = v_sub (path_p pq) (path_p pp)
               in v_mad (path_p pp) v (body_t bp / path_t pp)))
      else (0, 0, 0))"

text \<open>One iteration of the loop of \<open>sol_body_step\<close>, on body \<open>bp\<close>.\<close>

definition body_step1 :: "s_file \<Rightarrow> real \<Rightarrow> s_body \<Rightarrow> s_body" where
  "body_step1 fp dt bp =
     (let pp = rd (pv fp) (body_pi bp) in
      if body_pi bp \<ge> 0 \<and> path_f pp \<noteq> 0 then
        (let bp1 = bp\<lparr>body_t := body_t bp + dt\<rparr> in
         if body_t bp1 \<ge> path_t pp
         then bp1\<lparr>body_t := 0, body_pi := path_pi pp\<rparr>
         else bp1)
      else bp)"

text \<open>
  The loop runs over the bodies in order; an iteration writes its own body only and
  reads the paths, which the loop does not write.
\<close>

definition sol_body_step :: "s_file \<Rightarrow> real \<Rightarrow> s_file" where
  "sol_body_step fp dt = fp\<lparr>bv := map (body_step1 fp dt) (bv fp)\<rparr>"

section \<open>Swept-sphere tests against one primitive\<close>

text \<open>
  In the source the contact point is an output array that a test writes only when it
  finds a contact. Here a test takes the array's old contents \<open>Q\<close> and returns the time
  together with the array's new contents. The parameter \<open>o\<close> of the source is written
  \<open>oo\<close>, and a local \<open>O\<close> is written \<open>Oq\<close>.

  A division by zero in a test gives the C program an infinity or a NaN, which it goes
  on to compare. A time that is not a finite number is \<open>None\<close> here, and \<open>flt x y\<close> is
  the comparison \<open>x < y\<close> of the source for such an \<open>x\<close>: with an infinity \<open>+\<infinity>\<close> or a NaN
  on the left it is false. A zero divisor is taken to be \<open>+0\<close>, which is what the
  subtractions and sums of the source give unless every term is \<open>-0\<close>.
\<close>

fun flt :: "real option \<Rightarrow> real \<Rightarrow> bool" where
  "flt None y = False"
| "flt (Some x) y = (x < y)"

text \<open>
  \<open>v_sol\<close>: with \<open>d > 0\<close> the divisor \<open>a\<close> is not zero, since \<open>a = 0\<close> makes \<open>v\<close> zero
  and with it \<open>b\<close> and \<open>d\<close>. With \<open>d = 0\<close> and \<open>a = 0\<close> the source computes \<open>0 / 0\<close>.
\<close>

definition v_sol :: "vec \<Rightarrow> vec \<Rightarrow> real \<Rightarrow> real option" where
  "v_sol p v r =
     (let a = v_dot v v;
          b = v_dot v p * 2;
          c = v_dot p p - r * r;
          d = b * b - 4 * a * c
      in if d < 0 then Some LARGE
         else if d > 0 then
           (let t0 = 0.5 * (- b - sqrt d) / a;
                t1 = 0.5 * (- b + sqrt d) / a;
                t = (if t0 < t1 then t0 else t1)
            in if t < 0 then Some LARGE else Some t)
         else if a = 0 then None
         else Some (- b * 0.5 / a))"

definition v_vert ::
  "vec \<Rightarrow> vec \<Rightarrow> vec \<Rightarrow> vec \<Rightarrow> vec \<Rightarrow> vec \<Rightarrow> real \<Rightarrow> real option \<times> vec" where
  "v_vert Q oo q w p v r =
     (let Oq = v_add oo q;
          P = v_sub p Oq;
          V = v_sub v w
      in if v_dot P V < 0 then
           (let t = v_sol P V r
            in if flt t LARGE then (t, v_mad Oq w (the t)) else (t, Q))
         else (Some LARGE, Q))"

text \<open>
  \<open>v_edge\<close>: for an edge of length zero (\<open>uu = 0\<close>) the source computes \<open>0 / 0\<close> for
  \<open>P\<close> and \<open>V\<close>, every comparison that follows is false, and the result is \<open>LARGE\<close>. So
  it is when \<open>v_sol\<close> gives a NaN.
\<close>

definition v_edge ::
  "vec \<Rightarrow> vec \<Rightarrow> vec \<Rightarrow> vec \<Rightarrow> vec \<Rightarrow> vec \<Rightarrow> vec \<Rightarrow> real \<Rightarrow> real \<times> vec" where
  "v_edge Q oo q u w p v r =
     (let d = v_sub p oo;
          d = v_sub d q;
          e = v_sub v w;
          du = v_dot d u;
          eu = v_dot e u;
          uu = v_dot u u
      in if uu = 0 then (LARGE, Q)
         else
           (let P = v_mad d u (- du / uu);
                V = v_mad e u (- eu / uu)
            in case v_sol P V r of
                 None \<Rightarrow> (LARGE, Q)
               | Some t \<Rightarrow>
                   (let s = (du + eu * t) / uu
                    in if 0 \<le> t \<and> t < LARGE \<and> 0 < s \<and> s < 1 then
                         (let d = v_mad oo w t;
                              e = v_mad q u s
                          in (t, v_add e d))
                       else (LARGE, Q))))"

text \<open>
  \<open>v_side\<close>: with \<open>vn - wn = 0\<close> the source divides by zero. When \<open>r + d + on - pn\<close> is
  positive, \<open>u\<close> is \<open>+\<infinity>\<close>, which the source returns, after writing values that are not
  numbers to \<open>Q\<close>; the model leaves \<open>Q\<close> as it is there. Otherwise \<open>u\<close> is \<open>-\<infinity>\<close> or
  NaN and \<open>0 \<le> u\<close> is false; then \<open>a\<close> is \<open>+\<infinity>\<close> when \<open>d + on - pn\<close> is positive, and
  \<open>-\<infinity>\<close> or NaN otherwise.
\<close>

definition v_side ::
  "vec \<Rightarrow> vec \<Rightarrow> vec \<Rightarrow> vec \<Rightarrow> real \<Rightarrow> vec \<Rightarrow> vec \<Rightarrow> real \<Rightarrow> real option \<times> vec" where
  "v_side Q oo w n d p v r =
     (let vn = v_dot v n;
          wn = v_dot w n
      in if vn - wn \<le> 0 then
           (let on = v_dot oo n;
                pn = v_dot p n
            in if vn - wn = 0 then
                 (if r + d + on - pn > 0 then (None, Q)
                  else if d + on - pn > 0 then (Some 0, v_mad (v_mad p v 0) n (- r))
                  else (Some LARGE, Q))
               else
                 (let u = (r + d + on - pn) / (vn - wn);
                      a = (d + on - pn) / (vn - wn)
                  in if 0 \<le> u then (Some u, v_mad (v_mad p v u) n (- r))
                     else if 0 \<le> a then (Some 0, v_mad (v_mad p v 0) n (- r))
                     else (Some LARGE, Q)))
         else (Some LARGE, Q))"

section \<open>Tests against the geometry of a lump\<close>

definition sol_test_vert ::
  "real \<Rightarrow> vec \<Rightarrow> s_ball \<Rightarrow> s_vert \<Rightarrow> vec \<Rightarrow> vec \<Rightarrow> real option \<times> vec" where
  "sol_test_vert dt T up vp oo w =
     v_vert T oo (vert_p vp) w (ball_p up) (ball_v up) (ball_r up)"

definition sol_test_edge ::
  "real \<Rightarrow> vec \<Rightarrow> s_ball \<Rightarrow> s_file \<Rightarrow> s_edge \<Rightarrow> vec \<Rightarrow> vec \<Rightarrow> real \<times> vec" where
  "sol_test_edge dt T up fp ep oo w =
     (let q = vert_p (rd (vv fp) (edge_vi ep));
          u = v_sub (vert_p (rd (vv fp) (edge_vj ep))) (vert_p (rd (vv fp) (edge_vi ep)))
      in v_edge T oo q u w (ball_p up) (ball_v up) (ball_r up))"

text \<open>
  The side under test is given by its index \<open>si\<close> into \<open>sv\<close>: the source compares the
  pointers \<open>sp\<close> and \<open>sq\<close>, both into that array. \<open>outside_side\<close> is the condition of the
  \<open>if\<close> in the loop of \<open>sol_test_side\<close>, and \<open>side_scan\<close> is the loop over the remaining
  values of \<open>i\<close>: it says whether the loop leaves through \<open>return LARGE\<close>.
\<close>

definition outside_side :: "s_file \<Rightarrow> s_lump \<Rightarrow> int \<Rightarrow> vec \<Rightarrow> vec \<Rightarrow> vec \<Rightarrow> real \<Rightarrow> nat \<Rightarrow> bool" where
  "outside_side fp lp si T oo w t i =
     (let sqi = rd (iv fp) (lump_s0 lp + int i);
          sq = rd (sv fp) sqi
      in si \<noteq> sqi \<and>
         v_dot T (side_n sq) - v_dot oo (side_n sq) - v_dot w (side_n sq) * t > side_d sq)"

fun side_scan :: "s_file \<Rightarrow> s_lump \<Rightarrow> int \<Rightarrow> vec \<Rightarrow> vec \<Rightarrow> vec \<Rightarrow> real \<Rightarrow> nat list \<Rightarrow> bool" where
  "side_scan fp lp si T oo w t [] = False"
| "side_scan fp lp si T oo w t (i # ns) =
     (if outside_side fp lp si T oo w t i then True
      else side_scan fp lp si T oo w t ns)"

definition sol_test_side ::
  "real \<Rightarrow> vec \<Rightarrow> s_ball \<Rightarrow> s_file \<Rightarrow> s_lump \<Rightarrow> int \<Rightarrow> vec \<Rightarrow> vec \<Rightarrow> real option \<times> vec" where
  "sol_test_side dt T up fp lp si oo w =
     (let sp = rd (sv fp) si;
          (t, T) = v_side T oo w (side_n sp) (side_d sp) (ball_p up) (ball_v up) (ball_r up)
      in if flt t dt \<and> side_scan fp lp si T oo w (the t) [0 ..< nat (lump_sc lp)]
         then (Some LARGE, T) else (t, T))"

section \<open>Plane-side classification\<close>

definition sol_test_fore :: "real \<Rightarrow> s_ball \<Rightarrow> s_side \<Rightarrow> vec \<Rightarrow> vec \<Rightarrow> bool" where
  "sol_test_fore dt up sp oo w =
     (let q = v_sub (ball_p up) oo
      in if v_dot q (side_n sp) - side_d sp + ball_r up \<ge> 0 then True
         else (let q = v_mad q (ball_v up) dt
               in if v_dot q (side_n sp) - side_d sp + ball_r up \<ge> 0 then True
                  else False))"

definition sol_test_back :: "real \<Rightarrow> s_ball \<Rightarrow> s_side \<Rightarrow> vec \<Rightarrow> vec \<Rightarrow> bool" where
  "sol_test_back dt up sp oo w =
     (let q = v_sub (ball_p up) oo
      in if v_dot q (side_n sp) - side_d sp - ball_r up \<le> 0 then True
         else (let q = v_mad q (ball_v up) dt
               in if v_dot q (side_n sp) - side_d sp - ball_r up \<le> 0 then True
                  else False))"

section \<open>Lump, node, body and level traversal\<close>

text \<open>
  Modelled from the spec: the flag \<open>L_DETAIL\<close> of \<open>solid.h\<close> is not part of the source
  file; it is the bit that marks a lump as non-solid.
\<close>

definition L_DETAIL :: int where
  "L_DETAIL = 1"

text \<open>
  The loops of \<open>sol_test_lump\<close> carry the running minimum \<open>t\<close>, the output array \<open>T\<close> and
  the local array \<open>U\<close>; each is a left fold over the loop's values of \<open>i\<close>. \<open>keep_min\<close> is the
  body \<open>if ((u = ...) < t) { v_cpy(T, U); t = u; }\<close> of these loops, and \<open>fin\<close> passes it
  the result of a test that is always a finite number.
\<close>

definition keep_min :: "real \<times> vec \<Rightarrow> real option \<times> vec \<Rightarrow> real \<times> vec \<times> vec" where
  "keep_min tT uU =
     (if flt (fst uU) (fst tT) then (the (fst uU), snd uU, snd uU) else (fst tT, snd tT, snd uU))"

definition fin :: "real \<times> vec \<Rightarrow> real option \<times> vec" where
  "fin uU = (Some (fst uU), snd uU)"

definition lump_vert_step ::
  "s_ball \<Rightarrow> s_file \<Rightarrow> s_lump \<Rightarrow> vec \<Rightarrow> vec \<Rightarrow> real \<times> vec \<times> vec \<Rightarrow> nat \<Rightarrow> real \<times> vec \<times> vec" where
  "lump_vert_step up fp lp oo w st i =
     (case st of (t, T, U) \<Rightarrow>
        (let vp = rd (vv fp) (rd (iv fp) (lump_v0 lp + int i))
         in keep_min (t, T) (sol_test_vert t U up vp oo w)))"

definition lump_edge_step ::
  "s_ball \<Rightarrow> s_file \<Rightarrow> s_lump \<Rightarrow> vec \<Rightarrow> vec \<Rightarrow> real \<times> vec \<times> vec \<Rightarrow> nat \<Rightarrow> real \<times> vec \<times> vec" where
  "lump_edge_step up fp lp oo w st i =
     (case st of (t, T, U) \<Rightarrow>
        (let ep = rd (ev fp) (rd (iv fp) (lump_e0 lp + int i))
         in keep_min (t, T) (fin (sol_test_edge t U up fp ep oo w))))"

definition lump_side_step ::
  "s_ball \<Rightarrow> s_file \<Rightarrow> s_lump \<Rightarrow> vec \<Rightarrow> vec \<Rightarrow> real \<times> vec \<times> vec \<Rightarrow> nat \<Rightarrow> real \<times> vec \<times> vec" where
  "lump_side_step up fp lp oo w st i =
     (case st of (t, T, U) \<Rightarrow>
        (let si = rd (iv fp) (lump_s0 lp + int i)
         in keep_min (t, T) (sol_test_side t U up fp lp si oo w)))"

definition sol_test_lump ::
  "real \<Rightarrow> vec \<Rightarrow> s_ball \<Rightarrow> s_file \<Rightarrow> s_lump \<Rightarrow> vec \<Rightarrow> vec \<Rightarrow> real \<times> vec" where
  "sol_test_lump dt T up fp lp oo w =
     (if and (lump_fl lp) L_DETAIL \<noteq> 0 then (dt, T)
      else
        (let st = (dt, T, v_zero);
             st = (if ball_r up > 0
                   then foldl (lump_vert_step up fp lp oo w) st [0 ..< nat (lump_vc lp)]
                   else st);
             st = (if ball_r up > 0
                   then foldl (lump_edge_step up fp lp oo w) st [0 ..< nat (lump_ec lp)]
                   else st);
             st = foldl (lump_side_step up fp lp oo w) st [0 ..< nat (lump_sc lp)]
         in (fst st, fst (snd st))))"

text \<open>
  \<open>sol_test_node\<close> calls itself on the child nodes, and nothing in the source bounds the
  depth: on a node array whose child indices form a cycle it never returns. The first
  argument bounds the depth of the calls; \<open>None\<close> says that the bound was reached. The
  node is given by its index into \<open>nv\<close>. The local array \<open>U\<close>, which the source does not
  initialise, starts as the zero vector; it is read only after a test has written it.
\<close>

definition node_lump_step ::
  "s_ball \<Rightarrow> s_file \<Rightarrow> s_node \<Rightarrow> vec \<Rightarrow> vec \<Rightarrow> real \<times> vec \<times> vec \<Rightarrow> nat \<Rightarrow> real \<times> vec \<times> vec" where
  "node_lump_step up fp np oo w st i =
     (case st of (t, T, U) \<Rightarrow>
        (let lp = rd (lv fp) (node_l0 np + int i)
         in keep_min (t, T) (fin (sol_test_lump t U up fp lp oo w))))"

fun sol_test_node ::
  "nat \<Rightarrow> real \<Rightarrow> vec \<Rightarrow> s_ball \<Rightarrow> s_file \<Rightarrow> int \<Rightarrow> vec \<Rightarrow> vec \<Rightarrow> (real \<times> vec) option" where
  "sol_test_node 0 dt T up fp ni oo w = None"
| "sol_test_node (Suc k) dt T up fp ni oo w =
     (let np = rd (nv fp) ni;
          st = foldl (node_lump_step up fp np oo w) (dt, T, v_zero) [0 ..< nat (node_lc np)]
      in case (if node_ni np \<ge> 0 \<and> sol_test_fore (fst st) up (rd (sv fp) (node_si np)) oo w
               then (case sol_test_node k (fst st) (snd (snd st)) up fp (node_ni np) oo w of
                       None \<Rightarrow> None
                     | Some uU \<Rightarrow> Some (keep_min (fst st, fst (snd st)) (fin uU)))
               else Some st) of
           None \<Rightarrow> None
         | Some st \<Rightarrow>
             (case (if node_nj np \<ge> 0 \<and> sol_test_back (fst st) up (rd (sv fp) (node_si np)) oo w
                    then (case sol_test_node k (fst st) (snd (snd st)) up fp (node_nj np) oo w of
                            None \<Rightarrow> None
                          | Some uU \<Rightarrow> Some (keep_min (fst st, fst (snd st)) (fin uU)))
                    else Some st) of
                None \<Rightarrow> None
              | Some st \<Rightarrow> Some (fst st, fst (snd st))))"

text \<open>
  \<open>sol_test_body\<close> and \<open>sol_test_file\<close> have two output arrays, \<open>T\<close> and \<open>V\<close>; the
  results are the time and the new contents of both.
\<close>

definition sol_test_body ::
  "nat \<Rightarrow> real \<Rightarrow> vec \<Rightarrow> vec \<Rightarrow> s_ball \<Rightarrow> s_file \<Rightarrow> s_body \<Rightarrow> (real \<times> vec \<times> vec) option" where
  "sol_test_body k dt T V up fp bp =
     (let Ob = sol_body_p fp bp;
          W = sol_body_v fp bp
      in case sol_test_node k dt v_zero up fp (body_ni bp) Ob W of
           None \<Rightarrow> None
         | Some uU \<Rightarrow> Some (if fst uU < dt then (fst uU, snd uU, W) else (dt, T, V)))"

fun file_loop ::
  "nat \<Rightarrow> s_ball \<Rightarrow> s_file \<Rightarrow> real \<times> vec \<times> vec \<Rightarrow> vec \<times> vec \<Rightarrow> s_body list
   \<Rightarrow> (real \<times> vec \<times> vec) option" where
  "file_loop k up fp tTV UW [] = Some tTV"
| "file_loop k up fp tTV UW (bp # bs) =
     (case sol_test_body k (fst tTV) (fst UW) (snd UW) up fp bp of
        None \<Rightarrow> None
      | Some uUW \<Rightarrow>
          file_loop k up fp (if fst uUW < fst tTV then uUW else tTV) (snd uUW) bs)"

definition sol_test_file ::
  "nat \<Rightarrow> real \<Rightarrow> vec \<Rightarrow> vec \<Rightarrow> s_ball \<Rightarrow> s_file \<Rightarrow> (real \<times> vec \<times> vec) option" where
  "sol_test_file k dt T V up fp = file_loop k up fp (dt, T, V) (v_zero, v_zero) (bv fp)"

section \<open>Switches and path cycles\<close>

text \<open>Writing the flag \<open>f\<close> of the path point \<open>pv[i]\<close>.\<close>

definition set_path_f :: "s_path list \<Rightarrow> int \<Rightarrow> int \<Rightarrow> s_path list" where
  "set_path_f ps i f = ps[nat i := (rd ps i)\<lparr>path_f := f\<rparr>]"

text \<open>
  The \<open>do ... while (pi != pj)\<close> loop of \<open>sol_swch_step\<close> and \<open>sol_swch_test\<close>, which
  differ only in the flag value \<open>f\<close> they write. Nothing in the source bounds the number
  of iterations; the first argument does, and \<open>None\<close> says that the bound was reached.
\<close>

fun path_loop :: "nat \<Rightarrow> s_path list \<Rightarrow> int \<Rightarrow> int \<Rightarrow> int \<Rightarrow> s_path list option" where
  "path_loop 0 ps p_i p_j f = None"
| "path_loop (Suc k) ps p_i p_j f =
     (let ps = set_path_f ps p_i f;
          ps = set_path_f ps p_j f;
          p_i = path_pi (rd ps p_i);
          p_j = path_pi (rd ps p_j);
          p_j = path_pi (rd ps p_j)
      in if p_i \<noteq> p_j then path_loop k ps p_i p_j f else Some ps)"

definition swch_step1 :: "nat \<Rightarrow> real \<Rightarrow> s_file \<Rightarrow> nat \<Rightarrow> s_file option" where
  "swch_step1 k dt fp xi =
     (let xp = (xv fp) ! xi
      in if swch_t xp > 0 then
           (let xp = xp\<lparr>swch_t := swch_t xp - dt\<rparr>
            in if swch_t xp \<le> 0 then
                 (case path_loop k (pv fp) (swch_pi xp) (swch_pi xp) (swch_f0 xp) of
                    None \<Rightarrow> None
                  | Some ps \<Rightarrow>
                      Some (fp\<lparr>pv := ps, xv := (xv fp)[xi := xp\<lparr>swch_f := swch_f0 xp\<rparr>]\<rparr>))
               else Some (fp\<lparr>xv := (xv fp)[xi := xp]\<rparr>))
         else Some fp)"

fun swch_loop :: "nat \<Rightarrow> real \<Rightarrow> s_file \<Rightarrow> nat list \<Rightarrow> s_file option" where
  "swch_loop k dt fp [] = Some fp"
| "swch_loop k dt fp (xi # xs) =
     (case swch_step1 k dt fp xi of None \<Rightarrow> None | Some fp \<Rightarrow> swch_loop k dt fp xs)"

definition sol_swch_step :: "nat \<Rightarrow> s_file \<Rightarrow> real \<Rightarrow> s_file option" where
  "sol_swch_step k fp dt = swch_loop k dt fp [0 ..< length (xv fp)]"

section \<open>Ball dynamics\<close>

text \<open>
  The matrix helpers \<open>m_rot\<close> and \<open>m_vxfm\<close> of \<open>vec3.h\<close> are not part of the source file.
  Their composition is a parameter \<open>rot\<close> of everything that rotates a basis:
  \<open>rot a x e\<close> is the vector that \<open>m_vxfm\<close> gives for \<open>e\<close> under the matrix \<open>m_rot\<close> builds
  from the axis \<open>a\<close> and the angle \<open>x\<close>.
\<close>

type_synonym rotation = "vec \<Rightarrow> real \<Rightarrow> vec \<Rightarrow> vec"

definition sol_rotate :: "rotation \<Rightarrow> vec \<times> vec \<times> vec \<Rightarrow> vec \<Rightarrow> real \<Rightarrow> vec \<times> vec \<times> vec" where
  "sol_rotate rot e w dt =
     (case e of (e0, e1, e2) \<Rightarrow>
        if v_len w > 0 then
          (let a = v_nrm w;
               f0 = rot a (v_len w * dt) e0;
               f1 = rot a (v_len w * dt) e1;
               f2 = rot a (v_len w * dt) e2;
               e2 = v_crs f0 f1;
               e1 = v_crs f2 f0;
               e0 = v_crs f1 f2
           in (v_nrm e0, v_nrm e1, v_nrm e2))
        else e)"

definition sol_bounce :: "s_ball \<Rightarrow> vec \<Rightarrow> vec \<Rightarrow> real \<Rightarrow> s_ball \<times> real" where
  "sol_bounce up q w dt =
     (let p = ball_p up;
          v = ball_v up;
          r = v_sub p q;
          d = v_sub v w;
          n = v_nrm r;
          up = up\<lparr>ball_w := v_crs d r\<rparr>;
          up = up\<lparr>ball_w := v_scl (ball_w up) (- 1 / (ball_r up * ball_r up))\<rparr>;
          vn = v_dot v n;
          wn = v_dot w n;
          up = up\<lparr>ball_v := v_mad v n (1.7 * (wn - vn))\<rparr>;
          up = up\<lparr>ball_p := v_mad q n (ball_r up)\<rparr>
      in (up, \<bar>v_dot n d\<bar>))"

definition sol_pendulum :: "rotation \<Rightarrow> s_ball \<Rightarrow> vec \<Rightarrow> vec \<Rightarrow> real \<Rightarrow> s_ball" where
  "sol_pendulum rot up a g dt =
     (let m = 5;
          ka = 0.5;
          kd = 0.995;
          A = v_scl a ka;
          A = v_mad A g (- dt);
          F = v_scl A (m / dt);
          r = v_scl (fst (snd (ball_E up))) (- ball_r up);
          T = (if \<bar>v_dot r F\<bar> > 0 then v_crs F r else (0, 0, 0));
          up = up\<lparr>ball_W := v_mad (ball_W up) T dt\<rparr>;
          up = up\<lparr>ball_W := v_scl (ball_W up) kd\<rparr>;
          up = up\<lparr>ball_E := sol_rotate rot (ball_E up) (ball_W up) dt\<rparr>;
          E1 = fst (snd (ball_E up));
          E2 = snd (snd (ball_E up));
          v = v_mad (ball_v up) E1 (v_dot (ball_v up) E1);
          Y = v_crs v E2;
          Y = v_scl E1 (2 * v_dot Y E1)
      in up\<lparr>ball_E := sol_rotate rot (ball_E up) Y dt\<rparr>)"

definition ball_step1 :: "rotation \<Rightarrow> real \<Rightarrow> s_ball \<Rightarrow> s_ball" where
  "ball_step1 rot dt up =
     (let up = up\<lparr>ball_p := v_mad (ball_p up) (ball_v up) dt\<rparr>
      in up\<lparr>ball_e := sol_rotate rot (ball_e up) (ball_w up) dt\<rparr>)"

definition sol_ball_step :: "rotation \<Rightarrow> s_file \<Rightarrow> real \<Rightarrow> s_file" where
  "sol_ball_step rot fp dt = fp\<lparr>uv := map (ball_step1 rot dt) (uv fp)\<rparr>"

section \<open>The step\<close>

text \<open>
  The ball \<open>up\<close> of the source points into \<open>fp->uv\<close>; \<open>set_ball\<close> writes it back. The
  optional counter \<open>m\<close> is an \<open>int option\<close>, \<open>None\<close> for the null pointer. The local
  arrays \<open>P\<close> and \<open>V\<close>, which the source does not initialise, start as the zero vector;
  the source reads them unwritten only when the friction test returns a budget
  \<open>dt < 0.0005\<close> with no contact.
\<close>

definition set_ball :: "s_file \<Rightarrow> int \<Rightarrow> s_ball \<Rightarrow> s_file" where
  "set_ball fp ui up = fp\<lparr>uv := (uv fp)[nat ui := up]\<rparr>"

text \<open>
  The friction part of \<open>sol_step\<close>, up to the comment \<open>Test for collision\<close>: the new
  ball, the counter, and the contents of \<open>P\<close> and \<open>V\<close>.
\<close>

definition step_friction ::
  "nat \<Rightarrow> s_file \<Rightarrow> vec \<Rightarrow> real \<Rightarrow> s_ball \<Rightarrow> int option
   \<Rightarrow> (s_ball \<times> int option \<times> vec \<times> vec) option" where
  "step_friction k fp g dt up m =
     (let tt = dt;
          v = ball_v up;
          up = up\<lparr>ball_v := g\<rparr>
      in case m of
           None \<Rightarrow> Some (up\<lparr>ball_v := v_mad v g tt\<rparr>, None, v_zero, v_zero)
         | Some mc \<Rightarrow>
             (case sol_test_file k tt v_zero v_zero up fp of
                None \<Rightarrow> None
              | Some (t, P, V) \<Rightarrow>
                  if t < 0.0005 then
                    (let up = up\<lparr>ball_v := v\<rparr>;
                         r = v_sub P (ball_p up);
                         d = v_dot r g / (v_len r * v_len g)
                     in if d > 0.999 then
                          (let e = v_len (ball_v up) - dt
                           in if e > 0 then
                                (let up = up\<lparr>ball_v := v_nrm (ball_v up)\<rparr>;
                                     up = up\<lparr>ball_v := v_scl (ball_v up) e\<rparr>;
                                     v = v_sub V (ball_v up);
                                     up = up\<lparr>ball_w := v_crs v r\<rparr>;
                                     up = up\<lparr>ball_w :=
                                            v_scl (ball_w up) (- 1 / (ball_r up * ball_r up))\<rparr>
                                 in Some (up, Some mc, P, V))
                              else Some (up\<lparr>ball_v := (0, 0, 0)\<rparr>, Some (mc + 1), P, V))
                        else Some (up\<lparr>ball_v := v_mad v g tt\<rparr>, Some mc, P, V))
                  else Some (up\<lparr>ball_v := v_mad v g tt\<rparr>, Some mc, P, V)))"

text \<open>
  The \<open>while\<close> loop of \<open>sol_step\<close>. The second argument is the counter \<open>c\<close>; the result
  is the level, the remaining time \<open>tt\<close>, the energy \<open>b\<close> and the value of \<open>c\<close> at the
  exit of the loop.
\<close>

fun step_loop ::
  "rotation \<Rightarrow> nat \<Rightarrow> nat \<Rightarrow> s_file \<Rightarrow> int \<Rightarrow> real \<Rightarrow> real \<Rightarrow> vec \<Rightarrow> vec
   \<Rightarrow> (s_file \<times> real \<times> real \<times> nat) option" where
  "step_loop rot k 0 fp ui tt b P V = Some (fp, tt, b, 0)"
| "step_loop rot k (Suc c) fp ui tt b P V =
     (if tt > 0 then
        (case sol_test_file k tt P V (rd (uv fp) ui) fp of
           None \<Rightarrow> None
         | Some (nt, P, V) \<Rightarrow>
             if tt > nt then
               (let fp = sol_body_step fp nt
                in case sol_swch_step k fp nt of
                     None \<Rightarrow> None
                   | Some fp \<Rightarrow>
                       (let fp = sol_ball_step rot fp nt;
                            tt = tt - nt;
                            ud = sol_bounce (rd (uv fp) ui) P V nt;
                            fp = set_ball fp ui (fst ud);
                            d = snd ud;
                            b = (if b < d then d else b)
                        in step_loop rot k c fp ui tt b P V))
             else Some (fp, tt, b, Suc c))
      else Some (fp, tt, b, Suc c))"

definition sol_step ::
  "rotation \<Rightarrow> nat \<Rightarrow> s_file \<Rightarrow> vec \<Rightarrow> real \<Rightarrow> int \<Rightarrow> int option
   \<Rightarrow> (real \<times> s_file \<times> int option) option" where
  "sol_step rot k fp g dt ui m =
     (if ui < int (length (uv fp)) then
        (let a = ball_v (rd (uv fp) ui)
         in case step_friction k fp g dt (rd (uv fp) ui) m of
              None \<Rightarrow> None
            | Some (up, m, P, V) \<Rightarrow>
                (case step_loop rot k 16 (set_ball fp ui up) ui dt 0 P V of
                   None \<Rightarrow> None
                 | Some (fp, tt, b, c) \<Rightarrow>
                     (let fp = sol_body_step fp tt
                      in case sol_swch_step k fp tt of
                           None \<Rightarrow> None
                         | Some fp \<Rightarrow>
                             (let fp = sol_ball_step rot fp tt;
                                  up = rd (uv fp) ui;
                                  a = v_sub (ball_v up) a;
                                  fp = set_ball fp ui (sol_pendulum rot up a g dt)
                              in Some (b, fp, m)))))
      else Some (0, fp, m))"

section \<open>Sensors\<close>

text \<open>
  \<open>sol_item_test\<close>: the constant \<open>ITEM_NONE\<close> of \<open>solid.h\<close> is not part of the source
  file and is the parameter \<open>item_none\<close>. The result is the index of the item returned
  together with the position written to \<open>p\<close>, or \<open>None\<close> for the null pointer. The ball is
  the first of the level, \<open>fp->uv\<close>.
\<close>

fun item_loop :: "int \<Rightarrow> vec \<Rightarrow> real \<Rightarrow> real \<Rightarrow> s_item list \<Rightarrow> nat \<Rightarrow> (nat \<times> vec) option" where
  "item_loop item_none bp br item_r [] hi = None"
| "item_loop item_none bp br item_r (h # hs) hi =
     (let r = v_sub bp (item_p h)
      in if item_t h \<noteq> item_none \<and> v_len r < br + item_r then Some (hi, item_p h)
         else item_loop item_none bp br item_r hs (Suc hi))"

definition sol_item_test :: "int \<Rightarrow> s_file \<Rightarrow> real \<Rightarrow> (nat \<times> vec) option" where
  "sol_item_test item_none fp item_r =
     item_loop item_none (ball_p (rd (uv fp) 0)) (ball_r (rd (uv fp) 0)) item_r (hv fp) 0"

text \<open>
  \<open>sol_swch_test\<close>: the constant \<open>SWCH_HEIGHT\<close> of \<open>geom.h\<close> is not part of the source
  file; the parameter \<open>h2\<close> is the value of \<open>SWCH_HEIGHT / 2\<close>.
\<close>

definition swch_test1 ::
  "nat \<Rightarrow> real \<Rightarrow> vec \<Rightarrow> real \<Rightarrow> s_file \<times> int \<Rightarrow> nat \<Rightarrow> (s_file \<times> int) option" where
  "swch_test1 k h2 bp br st xi =
     (case st of (fp, res) \<Rightarrow>
        (let xp = (xv fp) ! xi
         in if swch_t0 xp = 0 \<or> swch_f xp = swch_f0 xp then
              (let r = (fst bp - fst (swch_p xp),
                        snd (snd bp) - snd (snd (swch_p xp)), 0);
                   l = v_len r - swch_r xp
               in if l < br \<and> fst (snd bp) > fst (snd (swch_p xp))
                     \<and> fst (snd bp) < fst (snd (swch_p xp)) + h2 then
                    (if swch_e xp = 0 \<and> l < - br then
                       (let xp = (if swch_t0 xp = 0 then xp\<lparr>swch_e := 1\<rparr> else xp);
                            xp = xp\<lparr>swch_f := (if swch_f xp \<noteq> 0 then 0 else 1)\<rparr>
                        in case path_loop k (pv fp) (swch_pi xp) (swch_pi xp) (swch_f xp) of
                             None \<Rightarrow> None
                           | Some ps \<Rightarrow>
                               (let xp = (if swch_f xp \<noteq> swch_f0 xp
                                          then xp\<lparr>swch_t := swch_t0 xp\<rparr> else xp);
                                    res = (if swch_i xp = 0 then 1 else res)
                                in Some (fp\<lparr>pv := ps, xv := (xv fp)[xi := xp]\<rparr>, res)))
                     else Some (fp, res))
                  else if swch_e xp \<noteq> 0 then
                    Some (fp\<lparr>xv := (xv fp)[xi := xp\<lparr>swch_e := 0\<rparr>]\<rparr>, res)
                  else Some (fp, res))
            else Some (fp, res)))"

fun swch_test_loop ::
  "nat \<Rightarrow> real \<Rightarrow> vec \<Rightarrow> real \<Rightarrow> s_file \<times> int \<Rightarrow> nat list \<Rightarrow> (s_file \<times> int) option" where
  "swch_test_loop k h2 bp br st [] = Some st"
| "swch_test_loop k h2 bp br st (xi # xs) =
     (case swch_test1 k h2 bp br st xi of
        None \<Rightarrow> None
      | Some st \<Rightarrow> swch_test_loop k h2 bp br st xs)"

definition sol_swch_test :: "nat \<Rightarrow> real \<Rightarrow> s_file \<Rightarrow> int \<Rightarrow> (s_file \<times> int) option" where
  "sol_swch_test k h2 fp ui =
     swch_test_loop k h2 (ball_p (rd (uv fp) ui)) (ball_r (rd (uv fp) ui)) (fp, 0)
       [0 ..< length (xv fp)]"

section \<open>Example levels\<close>

definition lvl_none :: s_file where
  "lvl_none = \<lparr>vv = [], ev = [], sv = [], lv = [], nv = [], pv = [], bv = [], hv = [],
                xv = [], uv = [], iv = []\<rparr>"

text \<open>A rotation for the examples: it leaves every vector as it is.\<close>

definition rot_id :: rotation where
  "rot_id a x e = e"

text \<open>
  A body half-way along a linear two-point path of duration 2 whose points are both
  disabled.
\<close>

definition path2 :: "s_path list" where
  "path2 = [\<lparr>path_p = (0, 0, 0), path_t = 2, path_pi = 1, path_f = 0, path_s = 0\<rparr>,
            \<lparr>path_p = (2, 0, 0), path_t = 2, path_pi = 0, path_f = 0, path_s = 0\<rparr>]"

definition lvl_frozen :: s_file where
  "lvl_frozen = lvl_none\<lparr>pv := path2, bv := [\<lparr>body_t = 1, body_pi = 0, body_ni = 0\<rparr>]\<rparr>"

text \<open>
  The invariants of the body motion model: a body's local time lies within its current
  segment, and every path point has a positive duration and a successor in the array.
\<close>

definition body_ok :: "s_file \<Rightarrow> s_body \<Rightarrow> bool" where
  "body_ok fp bp =
     (in_range (pv fp) (body_pi bp) \<and> 0 \<le> body_t bp
      \<and> body_t bp < path_t (rd (pv fp) (body_pi bp)))"

definition paths_ok :: "s_file \<Rightarrow> bool" where
  "paths_ok fp = list_all (\<lambda>pp. 0 < path_t pp \<and> in_range (pv fp) (path_pi pp)) (pv fp)"

definition lvl_mover :: s_file where
  "lvl_mover = lvl_none\<lparr>pv := map (\<lambda>pp. pp\<lparr>path_f := 1\<rparr>) path2,
                        bv := [\<lparr>body_t = 1, body_pi = 0, body_ni = 0\<rparr>]\<rparr>"

text \<open>The condition under which the loop of \<open>sol_item_test\<close> returns the item \<open>h\<close>.\<close>

definition item_hit :: "int \<Rightarrow> vec \<Rightarrow> real \<Rightarrow> real \<Rightarrow> s_item \<Rightarrow> bool" where
  "item_hit item_none bp br item_r h =
     (item_t h \<noteq> item_none \<and> v_len (v_sub bp (item_p h)) < br + item_r)"

text \<open>A ball of radius 1 at the origin and two items, the second one nearer.\<close>

definition lvl_items :: s_file where
  "lvl_items = lvl_none\<lparr>
     uv := [\<lparr>ball_e = ((1, 0, 0), (0, 1, 0), (0, 0, 1)), ball_p = (0, 0, 0), ball_v = (0, 0, 0),
             ball_w = (0, 0, 0), ball_E = ((1, 0, 0), (0, 1, 0), (0, 0, 1)),
             ball_W = (0, 0, 0), ball_r = 1\<rparr>],
     hv := [\<lparr>item_p = (1, 0, 0), item_t = 1, item_n = 1\<rparr>,
            \<lparr>item_p = (0, 0, 0), item_t = 1, item_n = 1\<rparr>]\<rparr>"

definition mk_ball :: "vec \<Rightarrow> vec \<Rightarrow> real \<Rightarrow> s_ball" where
  "mk_ball p v r =
     \<lparr>ball_e = ((1, 0, 0), (0, 1, 0), (0, 0, 1)), ball_p = p, ball_v = v, ball_w = (0, 0, 0),
      ball_E = ((1, 0, 0), (0, 1, 0), (0, 0, 1)), ball_W = (0, 0, 0), ball_r = r\<rparr>"

text \<open>
  A lump bounded by the two sides \<open>y \<le> 0\<close> and \<open>x \<le> 1\<close>, and a ball that comes down on
  the plane of the first side at \<open>x = 3\<close>, outside the second.
\<close>

definition lump0 :: s_lump where
  "lump0 = \<lparr>lump_fl = 0, lump_v0 = 0, lump_vc = 0, lump_e0 = 0, lump_ec = 0,
             lump_s0 = 0, lump_sc = 2\<rparr>"

definition lvl_corner :: s_file where
  "lvl_corner = lvl_none\<lparr>
     sv := [\<lparr>side_n = (0, 1, 0), side_d = 0\<rparr>, \<lparr>side_n = (1, 0, 0), side_d = 1\<rparr>],
     lv := [lump0], iv := [0, 1]\<rparr>"

text \<open>
  The successor of a path index, and a path cycle of length \<open>N\<close> through \<open>s\<close>: following
  the successor \<open>N\<close> times from \<open>s\<close> returns to \<open>s\<close> and no fewer steps do, and the points
  on the way are indices into the array.
\<close>

definition nxt :: "s_path list \<Rightarrow> int \<Rightarrow> int" where
  "nxt ps i = path_pi (rd ps i)"

definition path_cycle :: "s_path list \<Rightarrow> int \<Rightarrow> nat \<Rightarrow> bool" where
  "path_cycle ps s N =
     (1 \<le> N \<and> (nxt ps ^^ N) s = s
      \<and> list_all (\<lambda>k. in_range ps ((nxt ps ^^ k) s)) [0 ..< N]
      \<and> list_all (\<lambda>k. (nxt ps ^^ k) s \<noteq> s) [1 ..< N])"

definition cycle_pts :: "s_path list \<Rightarrow> int \<Rightarrow> nat \<Rightarrow> int set" where
  "cycle_pts ps s N = (\<lambda>m. (nxt ps ^^ m) s) ` {..<N}"

text \<open>
  \<open>mark ps f S\<close> is \<open>ps\<close> with the flag \<open>f\<close> written to the points whose index is in \<open>S\<close>;
  \<open>seen ps s j\<close> holds the indices the two cursors have visited in \<open>j\<close> iterations.
\<close>

definition mark :: "s_path list \<Rightarrow> int \<Rightarrow> int set \<Rightarrow> s_path list" where
  "mark ps f S = map (\<lambda>i. if int i \<in> S then (ps ! i)\<lparr>path_f := f\<rparr> else ps ! i) [0 ..< length ps]"

text \<open>Three path points in a ring, all disabled.\<close>

definition ring3 :: "s_path list" where
  "ring3 = [\<lparr>path_p = (0, 0, 0), path_t = 1, path_pi = 1, path_f = 0, path_s = 0\<rparr>,
            \<lparr>path_p = (1, 0, 0), path_t = 1, path_pi = 2, path_f = 0, path_s = 0\<rparr>,
            \<lparr>path_p = (1, 1, 0), path_t = 1, path_pi = 0, path_f = 0, path_s = 0\<rparr>]"

definition seen :: "s_path list \<Rightarrow> int \<Rightarrow> nat \<Rightarrow> int set" where
  "seen ps s j = (\<lambda>m. (nxt ps ^^ m) s) ` {..<j} \<union> (\<lambda>m. (nxt ps ^^ (2 * m)) s) ` {..<j}"

text \<open>
  Well-formedness of a level, as far as the termination of a step needs it.
  \<open>node_ok fp d ni\<close>: the node \<open>ni\<close> is in the node array and the tree below it has
  depth at most \<open>d\<close>, with children in the array. \<open>level_ok k fp\<close>: the node tree of every
  body has depth at most \<open>k\<close>, and the path index of every switch lies on a path cycle of
  length at most \<open>k\<close>. \<open>shape\<close> collects the parts of a level that these depend on.
\<close>

fun node_ok :: "s_file \<Rightarrow> nat \<Rightarrow> int \<Rightarrow> bool" where
  "node_ok fp 0 ni = False"
| "node_ok fp (Suc d) ni =
     (in_range (nv fp) ni
      \<and> (if node_ni (rd (nv fp) ni) \<ge> 0 then node_ok fp d (node_ni (rd (nv fp) ni)) else True)
      \<and> (if node_nj (rd (nv fp) ni) \<ge> 0 then node_ok fp d (node_nj (rd (nv fp) ni)) else True))"

definition level_ok :: "nat \<Rightarrow> s_file \<Rightarrow> bool" where
  "level_ok k fp =
     (list_all (\<lambda>bp. node_ok fp k (body_ni bp)) (bv fp)
      \<and> list_all (\<lambda>xp. list_ex (\<lambda>N. path_cycle (pv fp) (swch_pi xp) N) [1 ..< Suc k]) (xv fp))"

definition shape :: "s_file \<Rightarrow> s_node list \<times> int list \<times> int list \<times> int list" where
  "shape fp = (nv fp, map body_ni (bv fp), map path_pi (pv fp), map swch_pi (xv fp))"

text \<open>
  A static body with one lump bounded by the plane \<open>y = 0\<close>, and a ball of radius 1 at
  height 2 that falls with speed 1.
\<close>

definition lvl_floor :: s_file where
  "lvl_floor = lvl_none\<lparr>
     sv := [\<lparr>side_n = (0, 1, 0), side_d = 0\<rparr>],
     lv := [\<lparr>lump_fl = 0, lump_v0 = 0, lump_vc = 0, lump_e0 = 0, lump_ec = 0,
             lump_s0 = 0, lump_sc = 1\<rparr>],
     nv := [\<lparr>node_si = 0, node_ni = - 1, node_nj = - 1, node_l0 = 0, node_lc = 1\<rparr>],
     bv := [\<lparr>body_t = 0, body_pi = - 1, body_ni = 0\<rparr>],
     uv := [mk_ball (0, 2, 0) (0, - 1, 0) 1],
     iv := [0]\<rparr>"

text \<open>
  The number of contacts that the loop of \<open>sol_step\<close> resolves in a call: 16 minus the
  value of the counter \<open>c\<close> at the exit of the loop.
\<close>

definition step_contacts ::
  "rotation \<Rightarrow> nat \<Rightarrow> s_file \<Rightarrow> vec \<Rightarrow> real \<Rightarrow> int \<Rightarrow> int option \<Rightarrow> nat option" where
  "step_contacts rot k fp g dt ui m =
     (if ui < int (length (uv fp)) then
        (case step_friction k fp g dt (rd (uv fp) ui) m of
           None \<Rightarrow> None
         | Some (up, m, P, V) \<Rightarrow>
             (case step_loop rot k 16 (set_ball fp ui up) ui dt 0 P V of
                None \<Rightarrow> None
              | Some (fp, tt, b, c) \<Rightarrow> Some (16 - c)))
      else Some 0)"

text \<open>
  The brute-force test of a subtree, in the words of the spec: every lump of the subtree
  is tested, without the plane-side classification. It is \<open>sol_test_node\<close> with the calls
  of \<open>sol_test_fore\<close> and \<open>sol_test_back\<close> left out.
\<close>

fun node_brute ::
  "nat \<Rightarrow> real \<Rightarrow> vec \<Rightarrow> s_ball \<Rightarrow> s_file \<Rightarrow> int \<Rightarrow> vec \<Rightarrow> vec \<Rightarrow> (real \<times> vec) option" where
  "node_brute 0 dt T up fp ni oo w = None"
| "node_brute (Suc k) dt T up fp ni oo w =
     (let np = rd (nv fp) ni;
          st = foldl (node_lump_step up fp np oo w) (dt, T, v_zero) [0 ..< nat (node_lc np)]
      in case (if node_ni np \<ge> 0
               then (case node_brute k (fst st) (snd (snd st)) up fp (node_ni np) oo w of
                       None \<Rightarrow> None
                     | Some uU \<Rightarrow> Some (keep_min (fst st, fst (snd st)) (fin uU)))
               else Some st) of
           None \<Rightarrow> None
         | Some st \<Rightarrow>
             (case (if node_nj np \<ge> 0
                    then (case node_brute k (fst st) (snd (snd st)) up fp (node_nj np) oo w of
                            None \<Rightarrow> None
                          | Some uU \<Rightarrow> Some (keep_min (fst st, fst (snd st)) (fin uU)))
                    else Some st) of
                None \<Rightarrow> None
              | Some st \<Rightarrow> Some (fst st, fst (snd st))))"

text \<open>
  \<open>away up oo n d t\<close>: the ball is wholly behind the plane with normal \<open>n\<close> and distance
  \<open>d\<close>, in the frame with origin \<open>oo\<close>, now and after the time \<open>t\<close>. This is when
  \<open>sol_test_fore\<close> fails; \<open>sol_test_back\<close> fails when it holds for the plane turned round.
\<close>

definition away :: "s_ball \<Rightarrow> vec \<Rightarrow> vec \<Rightarrow> real \<Rightarrow> real \<Rightarrow> bool" where
  "away up oo n d t =
     (v_dot (v_sub (ball_p up) oo) n - d + ball_r up < 0
      \<and> v_dot (v_mad (v_sub (ball_p up) oo) (ball_v up) t) n - d + ball_r up < 0)"

definition v_neg :: "vec \<Rightarrow> vec" where
  "v_neg n = v_scl n (- 1)"

text \<open>
  Geometric consistency of a node tree. \<open>lump_beyond fp lp n d\<close>: the lump lies in the
  half-space \<open>x\<cdot>n \<ge> d\<close>: its vertices and the ends of its edges do, its sides have unit
  normals, and so does every point within all of its sides. \<open>sub_beyond\<close>: every lump
  of a subtree does. \<open>bsp_ok\<close>: at every node with a child, the splitting plane has a
  unit normal, the lumps of the front subtree lie in front of it and the lumps of the back
  subtree behind it.
\<close>

definition lump_beyond :: "s_file \<Rightarrow> s_lump \<Rightarrow> vec \<Rightarrow> real \<Rightarrow> bool" where
  "lump_beyond fp lp n d =
     ((\<forall>i<nat (lump_vc lp). d \<le> v_dot (vert_p (rd (vv fp) (rd (iv fp) (lump_v0 lp + int i)))) n)
      \<and> (\<forall>i<nat (lump_ec lp).
            d \<le> v_dot (vert_p (rd (vv fp) (edge_vi (rd (ev fp) (rd (iv fp) (lump_e0 lp + int i)))))) n
            \<and> d \<le> v_dot (vert_p (rd (vv fp) (edge_vj (rd (ev fp) (rd (iv fp) (lump_e0 lp + int i)))))) n)
      \<and> (\<forall>i<nat (lump_sc lp).
            v_dot (side_n (rd (sv fp) (rd (iv fp) (lump_s0 lp + int i))))
              (side_n (rd (sv fp) (rd (iv fp) (lump_s0 lp + int i)))) = 1)
      \<and> (\<forall>x. (\<forall>i<nat (lump_sc lp).
                 v_dot x (side_n (rd (sv fp) (rd (iv fp) (lump_s0 lp + int i))))
                   \<le> side_d (rd (sv fp) (rd (iv fp) (lump_s0 lp + int i))))
               \<longrightarrow> d \<le> v_dot x n))"

fun sub_beyond :: "s_file \<Rightarrow> vec \<Rightarrow> real \<Rightarrow> nat \<Rightarrow> int \<Rightarrow> bool" where
  "sub_beyond fp n d 0 ni = True"
| "sub_beyond fp n d (Suc k) ni =
     ((\<forall>i<nat (node_lc (rd (nv fp) ni)).
         lump_beyond fp (rd (lv fp) (node_l0 (rd (nv fp) ni) + int i)) n d)
      \<and> (node_ni (rd (nv fp) ni) \<ge> 0 \<longrightarrow> sub_beyond fp n d k (node_ni (rd (nv fp) ni)))
      \<and> (node_nj (rd (nv fp) ni) \<ge> 0 \<longrightarrow> sub_beyond fp n d k (node_nj (rd (nv fp) ni))))"

fun bsp_ok :: "s_file \<Rightarrow> nat \<Rightarrow> int \<Rightarrow> bool" where
  "bsp_ok fp 0 ni = True"
| "bsp_ok fp (Suc k) ni =
     ((node_ni (rd (nv fp) ni) \<ge> 0 \<longrightarrow>
         v_dot (side_n (rd (sv fp) (node_si (rd (nv fp) ni))))
           (side_n (rd (sv fp) (node_si (rd (nv fp) ni)))) = 1
         \<and> sub_beyond fp (side_n (rd (sv fp) (node_si (rd (nv fp) ni))))
             (side_d (rd (sv fp) (node_si (rd (nv fp) ni)))) k (node_ni (rd (nv fp) ni))
         \<and> bsp_ok fp k (node_ni (rd (nv fp) ni)))
      \<and> (node_nj (rd (nv fp) ni) \<ge> 0 \<longrightarrow>
         v_dot (side_n (rd (sv fp) (node_si (rd (nv fp) ni))))
           (side_n (rd (sv fp) (node_si (rd (nv fp) ni)))) = 1
         \<and> sub_beyond fp (v_neg (side_n (rd (sv fp) (node_si (rd (nv fp) ni)))))
             (- side_d (rd (sv fp) (node_si (rd (nv fp) ni)))) k (node_nj (rd (nv fp) ni))
         \<and> bsp_ok fp k (node_nj (rd (nv fp) ni))))"

text \<open>
  \<open>lvl_bsp\<close>: the floor lump of \<open>lvl_floor\<close> is in the back subtree of the plane \<open>y = 1\<close>.
  \<open>lvl_lift\<close>: a slab \<open>1 \<le> y \<le> 3\<close> in the front subtree of the plane \<open>y = 0\<close>, in a body
  that its path moves down with speed 2.
\<close>

definition lvl_bsp :: s_file where
  "lvl_bsp = lvl_floor\<lparr>
     sv := [\<lparr>side_n = (0, 1, 0), side_d = 0\<rparr>, \<lparr>side_n = (0, 1, 0), side_d = 1\<rparr>],
     nv := [\<lparr>node_si = 1, node_ni = - 1, node_nj = 1, node_l0 = 0, node_lc = 0\<rparr>,
            \<lparr>node_si = 0, node_ni = - 1, node_nj = - 1, node_l0 = 0, node_lc = 1\<rparr>]\<rparr>"

definition lvl_lift :: s_file where
  "lvl_lift = lvl_floor\<lparr>
     sv := [\<lparr>side_n = (0, 1, 0), side_d = 0\<rparr>, \<lparr>side_n = (0, 1, 0), side_d = 3\<rparr>,
            \<lparr>side_n = (0, - 1, 0), side_d = - 1\<rparr>],
     lv := [\<lparr>lump_fl = 0, lump_v0 = 0, lump_vc = 0, lump_e0 = 0, lump_ec = 0,
             lump_s0 = 0, lump_sc = 2\<rparr>],
     nv := [\<lparr>node_si = 0, node_ni = 1, node_nj = - 1, node_l0 = 0, node_lc = 0\<rparr>,
            \<lparr>node_si = 0, node_ni = - 1, node_nj = - 1, node_l0 = 0, node_lc = 1\<rparr>],
     pv := [\<lparr>path_p = (0, 0, 0), path_t = 4, path_pi = 1, path_f = 1, path_s = 0\<rparr>,
            \<lparr>path_p = (0, - 8, 0), path_t = 4, path_pi = 0, path_f = 1, path_s = 0\<rparr>],
     bv := [\<lparr>body_t = 0, body_pi = 0, body_ni = 0\<rparr>],
     iv := [1, 2]\<rparr>"

section \<open>Properties of the primitive tests\<close>

lemma v_dot_self_nonneg: "0 \<le> v_dot v v"
  by (cases v) simp

lemma v_dot_self_zero: "v_dot v v = 0 \<Longrightarrow> v_dot v p = 0"
proof (cases v; cases p)
  fix a b c x y z
  assume v: "v = (a, b, c)" and p: "p = (x, y, z)" and z: "v_dot v v = 0"
  from z v have "a * a + b * b + c * c = 0" by simp
  then have "a = 0 \<and> b = 0 \<and> c = 0"
    by (smt (verit) mult_eq_0_iff zero_le_square)
  with v p show ?thesis by simp
qed

text \<open>
  C2, as the code has it, with \<open>a = V\<cdot>V\<close>, \<open>b = 2 V\<cdot>P\<close>, \<open>c = P\<cdot>P - r\<^sup>2\<close> and the
  discriminant \<open>d\<close>. For \<open>d < 0\<close> \<open>v_sol\<close> returns the sentinel. For \<open>d = 0\<close> it returns
  the tangent root \<open>- b / 2a\<close>, whatever its sign, and \<open>0 / 0\<close> when \<open>a = 0\<close>. For \<open>d > 0\<close>
  it returns the smaller root when that is not negative, and the sentinel otherwise. So
  the result is never negative when \<open>d \<noteq> 0\<close>; and a result that is a number other than
  the sentinel is a root of the quadratic.
\<close>

theorem v_sol_policy:
  fixes p v :: vec and r :: real
  defines "a \<equiv> v_dot v v" and "b \<equiv> v_dot v p * 2" and "c \<equiv> v_dot p p - r * r"
  defines "d \<equiv> b * b - 4 * a * c"
  shows "(d < 0 \<longrightarrow> v_sol p v r = Some LARGE)
    \<and> (d = 0 \<longrightarrow> v_sol p v r = (if a = 0 then None else Some (- b / (2 * a))))
    \<and> (d > 0 \<longrightarrow> 0 < a \<and> v_sol p v r =
          (if (- b - sqrt d) / (2 * a) < 0 then Some LARGE else Some ((- b - sqrt d) / (2 * a))))
    \<and> (d \<noteq> 0 \<longrightarrow> (\<exists>t. v_sol p v r = Some t \<and> 0 \<le> t))
    \<and> (\<forall>t. v_sol p v r = Some t \<and> t \<noteq> LARGE \<longrightarrow> a * t * t + b * t + c = 0)"
proof -
  have a0: "0 \<le> a" unfolding a_def by (rule v_dot_self_nonneg)
  have apos: "0 < a" if "d > 0"
  proof (rule ccontr)
    assume "\<not> 0 < a"
    with a0 have "a = 0" by simp
    then have "b = 0" unfolding a_def b_def by (simp add: v_dot_self_zero)
    with \<open>a = 0\<close> that show False by (simp add: d_def)
  qed
  have neg: "v_sol p v r = Some LARGE" if "d < 0"
    using that unfolding v_sol_def Let_def a_def b_def c_def d_def by simp
  have zero: "v_sol p v r = (if a = 0 then None else Some (- b / (2 * a)))" if "d = 0"
    using that unfolding v_sol_def Let_def a_def b_def c_def d_def by simp
  have pos: "v_sol p v r =
      (if (- b - sqrt d) / (2 * a) < 0 then Some LARGE else Some ((- b - sqrt d) / (2 * a)))"
    if "d > 0"
  proof -
    have s: "0 < sqrt d" using that by simp
    have lt: "0.5 * (- b - sqrt d) / a < 0.5 * (- b + sqrt d) / a"
      using s apos [OF that] by (simp add: divide_strict_right_mono)
    have "v_sol p v r =
        (if 0.5 * (- b - sqrt d) / a < 0 then Some LARGE else Some (0.5 * (- b - sqrt d) / a))"
      using that lt unfolding v_sol_def Let_def a_def b_def c_def d_def by simp
    then show ?thesis by (simp add: field_simps)
  qed
  have nonneg: "\<exists>t. v_sol p v r = Some t \<and> 0 \<le> t" if "d \<noteq> 0"
  proof (cases "d < 0")
    case True
    then show ?thesis by (simp add: neg LARGE_def)
  next
    case False
    with that have "d > 0" by simp
    then show ?thesis by (simp add: pos LARGE_def)
  qed
  have root: "a * t * t + b * t + c = 0" if "v_sol p v r = Some t" "t \<noteq> LARGE" for t
  proof -
    have d0: "0 \<le> d"
    proof (rule ccontr)
      assume "\<not> 0 \<le> d"
      then have "d < 0" by simp
      with that neg show False by simp
    qed
    have ap: "0 < a"
    proof (cases "d = 0")
      case True
      with that zero have "a \<noteq> 0" by (auto split: if_splits)
      with a0 show ?thesis by simp
    next
      case False
      with d0 show ?thesis by (simp add: apos)
    qed
    define s where "s = (if d = 0 then 0 else sqrt d)"
    have ss: "s * s = d" using d0 by (simp add: s_def)
    have t: "t = (- b - s) / (2 * a)"
    proof (cases "d = 0")
      case True
      with that ap show ?thesis by (simp add: zero s_def)
    next
      case False
      with d0 have "d > 0" by simp
      with that show ?thesis by (simp add: pos s_def split: if_splits)
    qed
    have "4 * a * (a * ((- b - s) / (2 * a)) * ((- b - s) / (2 * a)) + b * ((- b - s) / (2 * a)) + c)
        = (b + s) * (b + s) - 2 * b * (b + s) + 4 * a * c"
      using ap by (simp add: field_simps)
    also have "\<dots> = s * s - b * b + 4 * a * c" by (simp add: algebra_simps)
    also have "\<dots> = 0" unfolding ss by (simp add: d_def)
    finally show ?thesis using ap unfolding t by simp
  qed
  from neg zero pos nonneg root apos show ?thesis by blast
qed

theorem v_sol_policy_witness:
  "v_sol (-3, 0, 0) (1, 0, 0) 1 = Some 2 \<and> v_sol (0, 2, 0) (1, 0, 0) 1 = Some LARGE
   \<and> v_sol (3, 0, 0) (1, 0, 0) 1 = Some LARGE"
  using v_sol_policy [of "(1, 0, 0)" "(-3, 0, 0)" 1] v_sol_policy [of "(1, 0, 0)" "(0, 2, 0)" 1]
    v_sol_policy [of "(1, 0, 0)" "(3, 0, 0)" 1]
  by (simp add: LARGE_def)

text \<open>
  C2 as stated fails: for \<open>P = (1, 1, 0)\<close>, \<open>V = (1, 0, 0)\<close> and \<open>r = 1\<close> the
  discriminant is 0, the tangent root is \<open>- 1\<close>, and \<open>v_sol\<close> returns it: a negative time
  and not the sentinel.
\<close>

theorem v_sol_tangent_counterexample:
  "v_dot (1, 0, 0) (1, 1, 0) * 2 * (v_dot (1, 0, 0) (1, 1, 0) * 2)
     - 4 * v_dot (1, 0, 0) (1, 0, 0) * (v_dot (1, 1, 0) (1, 1, 0) - 1 * 1) = (0 :: real)
   \<and> v_sol (1, 1, 0) (1, 0, 0) 1 = Some (- 1)"
  by (simp add: v_sol_def)

lemma side_scan_iff:
  "side_scan fp lp si T oo w t xs \<longleftrightarrow> (\<exists>i\<in>set xs. outside_side fp lp si T oo w t i)"
  by (induction xs) auto

text \<open>
  C5. When the plane test \<open>v_side\<close> on side \<open>si\<close> of a lump gives a time \<open>t\<close> below the
  budget \<open>dt\<close> and a contact point \<open>Q\<close>, and \<open>Q\<close> lies outside another side of the same
  lump in the body's frame at time \<open>t\<close>, \<open>sol_test_side\<close> returns the sentinel.
\<close>

theorem side_gating:
  assumes "v_side T oo w (side_n (rd (sv fp) si)) (side_d (rd (sv fp) si))
             (ball_p up) (ball_v up) (ball_r up) = (Some t, Q)"
    and "t < dt"
    and "i < nat (lump_sc lp)"
    and "rd (iv fp) (lump_s0 lp + int i) \<noteq> si"
    and "v_dot Q (side_n (rd (sv fp) (rd (iv fp) (lump_s0 lp + int i))))
         - v_dot oo (side_n (rd (sv fp) (rd (iv fp) (lump_s0 lp + int i))))
         - v_dot w (side_n (rd (sv fp) (rd (iv fp) (lump_s0 lp + int i)))) * t
         > side_d (rd (sv fp) (rd (iv fp) (lump_s0 lp + int i)))"
  shows "fst (sol_test_side dt T up fp lp si oo w) = Some LARGE"
proof -
  have "outside_side fp lp si Q oo w t i"
    using assms(4,5) by (simp add: outside_side_def Let_def)
  with assms(3) have "side_scan fp lp si Q oo w t [0 ..< nat (lump_sc lp)]"
    unfolding side_scan_iff by auto
  with assms(1,2) show ?thesis
    by (simp add: sol_test_side_def Let_def)
qed

theorem side_gating_witness:
  "v_side (0, 0, 0) (0, 0, 0) (0, 0, 0) (side_n (rd (sv lvl_corner) 0)) (side_d (rd (sv lvl_corner) 0))
      (3, 1, 0) (0, -1, 0) (1 / 2) = (Some (1 / 2), (3, 0, 0))
   \<and> rd (iv lvl_corner) (lump_s0 lump0 + int 1) \<noteq> 0
   \<and> fst (sol_test_side 1 (0, 0, 0) (mk_ball (3, 1, 0) (0, -1, 0) (1 / 2)) lvl_corner lump0 0
            (0, 0, 0) (0, 0, 0)) = Some LARGE"
proof -
  have v: "v_side (0, 0, 0) (0, 0, 0) (0, 0, 0) (side_n (rd (sv lvl_corner) 0))
      (side_d (rd (sv lvl_corner) 0)) (3, 1, 0) (0, -1, 0) (1 / 2) = (Some (1 / 2), (3, 0, 0))"
    by (simp add: v_side_def lvl_corner_def lvl_none_def rd_def)
  have n: "rd (iv lvl_corner) (lump_s0 lump0 + int 1) \<noteq> 0"
    by (simp add: lvl_corner_def lvl_none_def lump0_def rd_def)
  have o: "v_dot (3, 0, 0) (side_n (rd (sv lvl_corner) (rd (iv lvl_corner) (lump_s0 lump0 + int 1))))
         - v_dot (0, 0, 0) (side_n (rd (sv lvl_corner) (rd (iv lvl_corner) (lump_s0 lump0 + int 1))))
         - v_dot (0, 0, 0) (side_n (rd (sv lvl_corner) (rd (iv lvl_corner) (lump_s0 lump0 + int 1)))) * (1 / 2)
         > side_d (rd (sv lvl_corner) (rd (iv lvl_corner) (lump_s0 lump0 + int 1)))"
    by (simp add: lvl_corner_def lvl_none_def lump0_def rd_def)
  have b: "ball_p (mk_ball (3, 1, 0) (0, -1, 0) (1 / 2)) = (3, 1, 0)"
    "ball_v (mk_ball (3, 1, 0) (0, -1, 0) (1 / 2)) = (0, -1, 0)"
    "ball_r (mk_ball (3, 1, 0) (0, -1, 0) (1 / 2)) = 1 / 2"
    by (simp_all add: mk_ball_def)
  have "fst (sol_test_side 1 (0, 0, 0) (mk_ball (3, 1, 0) (0, -1, 0) (1 / 2)) lvl_corner lump0 0
            (0, 0, 0) (0, 0, 0)) = Some LARGE"
    by (rule side_gating [where t = "1 / 2" and Q = "(3, 0, 0)" and i = 1])
       (simp_all only: b v n o, simp_all add: lump0_def)
  with v n show ?thesis by simp
qed

section \<open>Properties of the body motion model\<close>

lemma rd_set_path_f:
  "in_range ps i \<Longrightarrow> in_range ps j \<Longrightarrow>
   rd (set_path_f ps i f) j = (if j = i then (rd ps i)\<lparr>path_f := f\<rparr> else rd ps j)"
  by (auto simp: rd_def set_path_f_def in_range_def nth_list_update)

lemma erp_bounds:
  assumes "0 \<le> x" and "x < 1"
  shows "0 \<le> erp x \<and> erp x < 1 \<and> (erp x = 0 \<longleftrightarrow> x = 0)"
proof -
  have e: "erp x = x * x * (3 - 2 * x)" by (simp add: erp_def algebra_simps)
  have f: "1 - erp x = (1 - x) * (1 - x) * (1 + 2 * x)" by (simp add: erp_def algebra_simps)
  have "0 \<le> x * x * (3 - 2 * x)" using assms by simp
  moreover have "0 < (1 - x) * (1 - x) * (1 + 2 * x)" using assms by simp
  moreover have "x * x * (3 - 2 * x) = 0 \<longleftrightarrow> x = 0" using assms by auto
  ultimately show ?thesis using e f by auto
qed

lemma v_mad_fixed: "v_mad p (v_sub q p) s = p \<longleftrightarrow> s = 0 \<or> q = p"
  by (cases p; cases q) auto

text \<open>
  C6, as the code has it. A body whose current path point is disabled has velocity zero.
  Its position does not depend on the enabled flag: with \<open>p\<close> the position of the current
  path point, \<open>q\<close> that of its successor, \<open>t\<close> the body's local time and \<open>T\<close> the duration
  of the segment, \<open>sol_body_p\<close> gives \<open>p + s (q - p)\<close>, where \<open>s\<close> is \<open>t / T\<close>, or
  \<open>erp (t / T)\<close> on a smoothed segment: the same as with the flag set. With
  \<open>0 \<le> t < T\<close> the parameter \<open>s\<close> lies in \<open>[0, 1)\<close>, and if moreover \<open>q\<close> differs from \<open>p\<close>
  the position is that of the path point itself exactly when \<open>t = 0\<close>.
\<close>

theorem frozen_body:
  assumes "in_range (pv fp) (body_pi bp)"
    and "in_range (pv fp) (path_pi (rd (pv fp) (body_pi bp)))"
    and "path_f (rd (pv fp) (body_pi bp)) = 0"
  shows "sol_body_v fp bp = (0, 0, 0)
    \<and> sol_body_p fp bp =
        v_mad (path_p (rd (pv fp) (body_pi bp)))
          (v_sub (path_p (rd (pv fp) (path_pi (rd (pv fp) (body_pi bp)))))
                 (path_p (rd (pv fp) (body_pi bp))))
          (if path_s (rd (pv fp) (body_pi bp)) \<noteq> 0
           then erp (body_t bp / path_t (rd (pv fp) (body_pi bp)))
           else body_t bp / path_t (rd (pv fp) (body_pi bp)))
    \<and> sol_body_p fp bp = sol_body_p (fp\<lparr>pv := set_path_f (pv fp) (body_pi bp) 1\<rparr>) bp
    \<and> (0 \<le> body_t bp \<and> body_t bp < path_t (rd (pv fp) (body_pi bp)) \<longrightarrow>
          0 \<le> (if path_s (rd (pv fp) (body_pi bp)) \<noteq> 0
               then erp (body_t bp / path_t (rd (pv fp) (body_pi bp)))
               else body_t bp / path_t (rd (pv fp) (body_pi bp)))
          \<and> (if path_s (rd (pv fp) (body_pi bp)) \<noteq> 0
              then erp (body_t bp / path_t (rd (pv fp) (body_pi bp)))
              else body_t bp / path_t (rd (pv fp) (body_pi bp))) < 1)
    \<and> (0 \<le> body_t bp \<and> body_t bp < path_t (rd (pv fp) (body_pi bp))
        \<and> path_p (rd (pv fp) (path_pi (rd (pv fp) (body_pi bp))))
            \<noteq> path_p (rd (pv fp) (body_pi bp)) \<longrightarrow>
          (sol_body_p fp bp = path_p (rd (pv fp) (body_pi bp)) \<longleftrightarrow> body_t bp = 0))"
proof -
  let ?pp = "rd (pv fp) (body_pi bp)"
  let ?pq = "rd (pv fp) (path_pi ?pp)"
  let ?s = "if path_s ?pp \<noteq> 0 then erp (body_t bp / path_t ?pp) else body_t bp / path_t ?pp"
  have v: "sol_body_v fp bp = (0, 0, 0)"
    using assms(3) by (simp add: sol_body_v_def)
  have i: "sol_body_p fp bp = v_mad (path_p ?pp) (v_sub (path_p ?pq) (path_p ?pp)) ?s"
    using assms(1) by (simp add: sol_body_p_def Let_def in_range_def)
  have p: "sol_body_p fp bp = sol_body_p (fp\<lparr>pv := set_path_f (pv fp) (body_pi bp) 1\<rparr>) bp"
    using assms(1,2) by (simp add: sol_body_p_def rd_set_path_f Let_def)
  have x: "0 \<le> body_t bp / path_t ?pp \<and> body_t bp / path_t ?pp < 1"
    if t: "0 \<le> body_t bp" "body_t bp < path_t ?pp"
    using t by simp
  have b: "0 \<le> ?s \<and> ?s < 1" if t: "0 \<le> body_t bp" "body_t bp < path_t ?pp"
    using x [OF t] erp_bounds [of "body_t bp / path_t ?pp"] by simp
  have z: "sol_body_p fp bp = path_p ?pp \<longleftrightarrow> body_t bp = 0"
    if t: "0 \<le> body_t bp" "body_t bp < path_t ?pp" and d: "path_p ?pq \<noteq> path_p ?pp"
  proof -
    have T: "0 < path_t ?pp" using t by simp
    have "?s = 0 \<longleftrightarrow> body_t bp / path_t ?pp = 0"
      using x [OF t] erp_bounds [of "body_t bp / path_t ?pp"] by simp
    also have "\<dots> \<longleftrightarrow> body_t bp = 0" using T by simp
    finally have s: "?s = 0 \<longleftrightarrow> body_t bp = 0" .
    show ?thesis unfolding i v_mad_fixed using d s by simp
  qed
  from v i p b z show ?thesis by blast
qed

theorem frozen_body_witness:
  "in_range (pv lvl_frozen) (body_pi (bv lvl_frozen ! 0))
   \<and> in_range (pv lvl_frozen) (path_pi (rd (pv lvl_frozen) (body_pi (bv lvl_frozen ! 0))))
   \<and> path_f (rd (pv lvl_frozen) (body_pi (bv lvl_frozen ! 0))) = 0
   \<and> 0 \<le> body_t (bv lvl_frozen ! 0)
   \<and> body_t (bv lvl_frozen ! 0) < path_t (rd (pv lvl_frozen) (body_pi (bv lvl_frozen ! 0)))
   \<and> path_p (rd (pv lvl_frozen) (path_pi (rd (pv lvl_frozen) (body_pi (bv lvl_frozen ! 0)))))
       \<noteq> path_p (rd (pv lvl_frozen) (body_pi (bv lvl_frozen ! 0)))
   \<and> body_t (bv lvl_frozen ! 0) \<noteq> 0
   \<and> sol_body_v lvl_frozen (bv lvl_frozen ! 0) = (0, 0, 0)
   \<and> sol_body_p lvl_frozen (bv lvl_frozen ! 0) = (1, 0, 0)
   \<and> sol_body_p lvl_frozen (bv lvl_frozen ! 0)
       \<noteq> path_p (rd (pv lvl_frozen) (body_pi (bv lvl_frozen ! 0)))
   \<and> sol_body_p (lvl_frozen\<lparr>pv := set_path_f (pv lvl_frozen) 0 1\<rparr>) (bv lvl_frozen ! 0) = (1, 0, 0)"
  using frozen_body [of lvl_frozen "bv lvl_frozen ! 0"]
  by (simp add: lvl_frozen_def lvl_none_def path2_def sol_body_p_def rd_def in_range_def
      set_path_f_def)

text \<open>
  C6 as stated fails: the body of \<open>lvl_frozen\<close> sits on a disabled path point at
  \<open>(0, 0, 0)\<close>, and \<open>sol_body_p\<close> reports \<open>(1, 0, 0)\<close>, half-way along the segment.
\<close>

theorem frozen_body_counterexample:
  "path_f (rd (pv lvl_frozen) (body_pi (bv lvl_frozen ! 0))) = 0
   \<and> sol_body_v lvl_frozen (bv lvl_frozen ! 0) = (0, 0, 0)
   \<and> sol_body_p lvl_frozen (bv lvl_frozen ! 0) = (1, 0, 0)
   \<and> path_p (rd (pv lvl_frozen) (body_pi (bv lvl_frozen ! 0))) = (0, 0, 0)"
  by (simp add: lvl_frozen_def lvl_none_def path2_def sol_body_v_def sol_body_p_def rd_def)

lemma in_range_nat: "in_range xs i \<Longrightarrow> nat i < length xs"
  by (simp add: in_range_def nat_less_iff)

lemma paths_ok_rd:
  "paths_ok fp \<Longrightarrow> in_range (pv fp) i \<Longrightarrow>
   0 < path_t (rd (pv fp) i) \<and> in_range (pv fp) (path_pi (rd (pv fp) i))"
  using in_range_nat [of "pv fp" i] by (simp add: paths_ok_def list_all_length rd_def)

lemma body_step1_ok:
  assumes "paths_ok fp" and "0 \<le> dt" and "body_ok fp bp"
  shows "body_ok fp (body_step1 fp dt bp)"
  using assms paths_ok_rd [of fp "body_pi bp"]
    paths_ok_rd [of fp "path_pi (rd (pv fp) (body_pi bp))"]
  by (auto simp: body_ok_def body_step1_def Let_def)

text \<open>
  C7. On a level whose path points all have a positive duration and a successor in
  range, \<open>sol_body_step\<close> with \<open>dt \<ge> 0\<close> keeps every body's local time within
  \<open>[0, duration)\<close> of its then-current segment; a body on an enabled segment that
  reaches the segment's end has its time reset to 0 and moves to the successor.
\<close>

theorem body_step_keeps_time:
  assumes "paths_ok fp" and "0 \<le> dt" and "i < length (bv fp)" and "body_ok fp (bv fp ! i)"
  shows "body_ok (sol_body_step fp dt) (bv (sol_body_step fp dt) ! i)
    \<and> (path_f (rd (pv fp) (body_pi (bv fp ! i))) \<noteq> 0
         \<and> body_t (bv fp ! i) + dt \<ge> path_t (rd (pv fp) (body_pi (bv fp ! i)))
       \<longrightarrow> body_t (bv (sol_body_step fp dt) ! i) = 0
           \<and> body_pi (bv (sol_body_step fp dt) ! i)
             = path_pi (rd (pv fp) (body_pi (bv fp ! i))))"
proof -
  have b: "bv (sol_body_step fp dt) ! i = body_step1 fp dt (bv fp ! i)"
    using assms(3) by (simp add: sol_body_step_def)
  have ok: "body_ok (sol_body_step fp dt) = body_ok fp"
    by (simp add: fun_eq_iff body_ok_def sol_body_step_def)
  have "body_pi (bv fp ! i) \<ge> 0"
    using assms(4) by (simp add: body_ok_def in_range_def)
  then have r: "path_f (rd (pv fp) (body_pi (bv fp ! i))) \<noteq> 0
         \<and> body_t (bv fp ! i) + dt \<ge> path_t (rd (pv fp) (body_pi (bv fp ! i)))
       \<longrightarrow> body_t (body_step1 fp dt (bv fp ! i)) = 0
           \<and> body_pi (body_step1 fp dt (bv fp ! i))
             = path_pi (rd (pv fp) (body_pi (bv fp ! i)))"
    by (simp add: body_step1_def Let_def)
  from b ok r body_step1_ok [OF assms(1,2,4)] show ?thesis by simp
qed

theorem body_step_keeps_time_witness:
  "paths_ok lvl_mover \<and> body_ok lvl_mover (bv lvl_mover ! 0)
   \<and> body_ok (sol_body_step lvl_mover 1) (bv (sol_body_step lvl_mover 1) ! 0)
   \<and> body_t (bv (sol_body_step lvl_mover 1) ! 0) = 0
   \<and> body_pi (bv (sol_body_step lvl_mover 1) ! 0) = 1"
proof -
  have p: "paths_ok lvl_mover"
    by (simp add: paths_ok_def lvl_mover_def lvl_none_def path2_def in_range_def)
  have b: "body_ok lvl_mover (bv lvl_mover ! 0)"
    by (simp add: body_ok_def lvl_mover_def lvl_none_def path2_def in_range_def rd_def)
  have l: "0 < length (bv lvl_mover)"
    by (simp add: lvl_mover_def lvl_none_def)
  have f: "path_f (rd (pv lvl_mover) (body_pi (bv lvl_mover ! 0))) \<noteq> 0
      \<and> body_t (bv lvl_mover ! 0) + 1 \<ge> path_t (rd (pv lvl_mover) (body_pi (bv lvl_mover ! 0)))
      \<and> path_pi (rd (pv lvl_mover) (body_pi (bv lvl_mover ! 0))) = 1"
    by (simp add: lvl_mover_def lvl_none_def path2_def rd_def)
  show ?thesis
    using body_step_keeps_time [OF p _ l b, of 1] p b f by simp
qed

section \<open>Properties of the path-cycle broadcast\<close>

lemma length_mark: "length (mark ps f S) = length ps"
  by (simp add: mark_def)

lemma nth_mark:
  "n < length ps \<Longrightarrow> mark ps f S ! n = (if int n \<in> S then (ps ! n)\<lparr>path_f := f\<rparr> else ps ! n)"
  by (simp add: mark_def)

lemma mark_empty: "mark ps f {} = ps"
  by (rule nth_equalityI) (simp_all add: length_mark nth_mark)

lemma nxt_mark: "in_range ps i \<Longrightarrow> nxt (mark ps f S) i = nxt ps i"
  using in_range_nat [of ps i] by (simp add: nxt_def rd_def nth_mark)

lemma set_path_f_mark:
  assumes "in_range ps i"
  shows "set_path_f (mark ps f S) i f = mark ps f (insert i S)"
proof (rule nth_equalityI)
  show "length (set_path_f (mark ps f S) i f) = length (mark ps f (insert i S))"
    by (simp add: set_path_f_def length_mark)
next
  fix n
  assume "n < length (set_path_f (mark ps f S) i f)"
  then have n: "n < length ps" by (simp add: set_path_f_def length_mark)
  have i: "nat i < length ps" "0 \<le> i" using assms in_range_nat by (auto simp: in_range_def)
  have e: "n = nat i \<longleftrightarrow> int n = i" using i(2) by auto
  show "set_path_f (mark ps f S) i f ! n = mark ps f (insert i S) ! n"
    using n i e by (auto simp: set_path_f_def rd_def nth_mark length_mark nth_list_update)
qed

lemma funpow_period:
  assumes "(g ^^ N) s = s"
  shows "(g ^^ (n + N * q)) s = (g ^^ n) s"
proof (induction q)
  case 0
  show ?case by simp
next
  case (Suc q)
  have q: "n + N * Suc q = (n + N * q) + N" by simp
  have "(g ^^ (n + N * Suc q)) s = (g ^^ ((n + N * q) + N)) s" by (simp only: q)
  also have "\<dots> = (g ^^ (n + N * q)) ((g ^^ N) s)" by (simp only: funpow_add o_apply)
  also have "\<dots> = (g ^^ (n + N * q)) s" by (simp only: assms)
  also have "\<dots> = (g ^^ n) s" by (rule Suc)
  finally show ?case .
qed

lemma funpow_mod:
  assumes "(g ^^ N) s = s"
  shows "(g ^^ n) s = (g ^^ (n mod N)) s"
proof -
  have "(g ^^ (n mod N + N * (n div N))) s = (g ^^ (n mod N)) s"
    by (rule funpow_period [OF assms])
  then show ?thesis by (simp only: mod_mult_div_eq)
qed

lemma funpow_inj_below:
  assumes per: "(g ^^ N) s = s"
    and mini: "\<And>k. 0 < k \<Longrightarrow> k < N \<Longrightarrow> (g ^^ k) s \<noteq> s"
    and "a < b" and "b < N"
  shows "(g ^^ a) s \<noteq> (g ^^ b) s"
proof
  assume e: "(g ^^ a) s = (g ^^ b) s"
  have "(g ^^ (N - b + a)) s = (g ^^ (N - b)) ((g ^^ a) s)"
    by (simp only: funpow_add o_apply)
  also have "\<dots> = (g ^^ (N - b)) ((g ^^ b) s)" by (simp only: e)
  also have "\<dots> = (g ^^ (N - b + b)) s" by (simp only: funpow_add o_apply)
  also have "\<dots> = (g ^^ N) s" using \<open>b < N\<close> by simp
  finally have eq: "(g ^^ (N - b + a)) s = s" by (simp only: per)
  have "0 < N - b + a" "N - b + a < N" using \<open>a < b\<close> \<open>b < N\<close> by auto
  then have ne: "(g ^^ (N - b + a)) s \<noteq> s" by (rule mini)
  show False by (rule notE [OF ne eq])
qed

lemma funpow_eq_iff:
  assumes per: "(g ^^ N) s = s"
    and mini: "\<And>k. 0 < k \<Longrightarrow> k < N \<Longrightarrow> (g ^^ k) s \<noteq> s"
    and "0 < N"
  shows "(g ^^ a) s = (g ^^ b) s \<longleftrightarrow> a mod N = b mod N"
proof
  assume m: "a mod N = b mod N"
  have "(g ^^ a) s = (g ^^ (a mod N)) s" by (rule funpow_mod [OF per])
  also have "\<dots> = (g ^^ (b mod N)) s" by (simp only: m)
  also have "\<dots> = (g ^^ b) s" by (rule funpow_mod [OF per, symmetric])
  finally show "(g ^^ a) s = (g ^^ b) s" .
next
  assume ab: "(g ^^ a) s = (g ^^ b) s"
  have "(g ^^ (a mod N)) s = (g ^^ a) s" by (rule funpow_mod [OF per, symmetric])
  also have "\<dots> = (g ^^ b) s" by (rule ab)
  also have "\<dots> = (g ^^ (b mod N)) s" by (rule funpow_mod [OF per])
  finally have e: "(g ^^ (a mod N)) s = (g ^^ (b mod N)) s" .
  have lt: "a mod N < N" "b mod N < N" using \<open>0 < N\<close> by simp_all
  show "a mod N = b mod N"
  proof (rule ccontr)
    assume "a mod N \<noteq> b mod N"
    then consider "a mod N < b mod N" | "b mod N < a mod N" by linarith
    then show False
    proof cases
      case 1
      have "(g ^^ (a mod N)) s \<noteq> (g ^^ (b mod N)) s"
        by (rule funpow_inj_below [OF per mini 1 lt(2)])
      then show False using e by (rule notE)
    next
      case 2
      have "(g ^^ (b mod N)) s \<noteq> (g ^^ (a mod N)) s"
        by (rule funpow_inj_below [OF per mini 2 lt(1)])
      then show False using e [symmetric] by (rule notE)
    qed
  qed
qed

lemma meet_iff:
  assumes "0 < j" and "j \<le> N"
  shows "j mod N = (2 * j) mod N \<longleftrightarrow> j = (N :: nat)"
proof
  assume "j = N"
  then show "j mod N = (2 * j) mod N" by simp
next
  assume e: "j mod N = (2 * j) mod N"
  show "j = N"
  proof (rule ccontr)
    assume "j \<noteq> N"
    with assms have lt: "j < N" by simp
    then have l: "j mod N = j" by simp
    show False
    proof (cases "2 * j < N")
      case True
      then have "(2 * j) mod N = 2 * j" by simp
      with e l have "j = 2 * j" by (simp only:)
      with assms(1) show False by simp
    next
      case ge: False
      then have "(2 * j) mod N = 2 * j - N"
        using lt by (simp add: mod_if)
      with e l have "j = 2 * j - N" by (simp only:)
      with lt ge show False by linarith
    qed
  qed
qed

lemma path_cycleD:
  assumes "path_cycle ps s N"
  shows "0 < N" and "(nxt ps ^^ N) s = s"
    and "\<And>k. k < N \<Longrightarrow> in_range ps ((nxt ps ^^ k) s)"
    and "\<And>k. 0 < k \<Longrightarrow> k < N \<Longrightarrow> (nxt ps ^^ k) s \<noteq> s"
proof -
  from assms have a: "1 \<le> N" and b: "(nxt ps ^^ N) s = s"
    and c: "\<forall>k\<in>set [0 ..< N]. in_range ps ((nxt ps ^^ k) s)"
    and d: "\<forall>k\<in>set [1 ..< N]. (nxt ps ^^ k) s \<noteq> s"
    unfolding path_cycle_def list_all_iff by simp_all
  from a show "0 < N" by simp
  from b show "(nxt ps ^^ N) s = s" .
  show "in_range ps ((nxt ps ^^ k) s)" if "k < N" for k
    using c that by simp
  show "(nxt ps ^^ k) s \<noteq> s" if "0 < k" "k < N" for k
  proof -
    from that have "k \<in> set [1 ..< N]" by simp
    with d show ?thesis by (rule bspec)
  qed
qed

lemma orbit_in_range:
  assumes "path_cycle ps s N"
  shows "in_range ps ((nxt ps ^^ m) s)"
proof -
  have "m mod N < N" using path_cycleD(1) [OF assms] by simp
  then have "in_range ps ((nxt ps ^^ (m mod N)) s)" by (rule path_cycleD(3) [OF assms])
  then show ?thesis by (simp only: funpow_mod [OF path_cycleD(2) [OF assms], symmetric])
qed

lemma orbit_in_cycle:
  assumes "path_cycle ps s N"
  shows "(nxt ps ^^ m) s \<in> cycle_pts ps s N"
proof -
  have "m mod N < N" using path_cycleD(1) [OF assms] by simp
  then have "(nxt ps ^^ (m mod N)) s \<in> cycle_pts ps s N"
    unfolding cycle_pts_def by simp
  then show ?thesis by (simp only: funpow_mod [OF path_cycleD(2) [OF assms], symmetric])
qed

lemma path_loop_Suc:
  "path_loop (Suc k) ps a b f =
     (let ps2 = set_path_f (set_path_f ps a f) b f
      in if nxt ps2 a \<noteq> nxt ps2 (nxt ps2 b)
         then path_loop k ps2 (nxt ps2 a) (nxt ps2 (nxt ps2 b)) f else Some ps2)"
  by (simp add: nxt_def Let_def)

lemma seen_Suc:
  "seen ps s (Suc j) = insert ((nxt ps ^^ (2 * j)) s) (insert ((nxt ps ^^ j) s) (seen ps s j))"
  unfolding seen_def lessThan_Suc image_insert by auto

lemma seen_cycle:
  assumes "path_cycle ps s N"
  shows "seen ps s N = cycle_pts ps s N"
proof
  show "seen ps s N \<subseteq> cycle_pts ps s N"
    unfolding seen_def using orbit_in_cycle [OF assms] by auto
  show "cycle_pts ps s N \<subseteq> seen ps s N"
    unfolding seen_def cycle_pts_def by auto
qed

lemma meet_orbit:
  assumes cyc: "path_cycle ps s N" and "j < N"
  shows "(nxt ps ^^ Suc j) s = (nxt ps ^^ (2 * Suc j)) s \<longleftrightarrow> Suc j = N"
proof -
  have "(nxt ps ^^ Suc j) s = (nxt ps ^^ (2 * Suc j)) s \<longleftrightarrow> Suc j mod N = (2 * Suc j) mod N"
    by (rule funpow_eq_iff [OF path_cycleD(2) [OF cyc] path_cycleD(4) [OF cyc] path_cycleD(1) [OF cyc]])
  also have "\<dots> \<longleftrightarrow> Suc j = N"
    using assms(2) by (intro meet_iff) simp_all
  finally show ?thesis .
qed

lemma path_loop_run:
  assumes cyc: "path_cycle ps s N"
  shows "j < N \<Longrightarrow>
    path_loop k (mark ps f (seen ps s j)) ((nxt ps ^^ j) s) ((nxt ps ^^ (2 * j)) s) f
      = (if k < N - j then None else Some (mark ps f (cycle_pts ps s N)))"
proof (induction k arbitrary: j)
  case 0
  then show ?case by simp
next
  case (Suc k)
  let ?a = "(nxt ps ^^ j) s" and ?b = "(nxt ps ^^ (2 * j)) s"
  let ?ps2 = "mark ps f (seen ps s (Suc j))"
  have ra: "in_range ps ?a" and rb: "in_range ps ?b"
    by (rule orbit_in_range [OF cyc])+
  have rb1: "in_range ps (nxt ps ?b)"
    using orbit_in_range [OF cyc, of "Suc (2 * j)"] by simp
  have ps2: "set_path_f (set_path_f (mark ps f (seen ps s j)) ?a f) ?b f = ?ps2"
    by (simp only: set_path_f_mark [OF ra] set_path_f_mark [OF rb] seen_Suc)
  have na: "nxt ?ps2 ?a = (nxt ps ^^ Suc j) s"
    by (simp add: nxt_mark [OF ra])
  have nb: "nxt ?ps2 (nxt ?ps2 ?b) = (nxt ps ^^ (2 * Suc j)) s"
    by (simp add: nxt_mark [OF rb] nxt_mark [OF rb1])
  have step: "path_loop (Suc k) (mark ps f (seen ps s j)) ?a ?b f =
      (if (nxt ps ^^ Suc j) s \<noteq> (nxt ps ^^ (2 * Suc j)) s
       then path_loop k ?ps2 ((nxt ps ^^ Suc j) s) ((nxt ps ^^ (2 * Suc j)) s) f
       else Some ?ps2)"
    unfolding path_loop_Suc Let_def ps2 na nb ..
  show ?case
  proof (cases "Suc j = N")
    case True
    then have "(nxt ps ^^ Suc j) s = (nxt ps ^^ (2 * Suc j)) s"
      using meet_orbit [OF cyc Suc.prems] by (simp only:)
    then have "path_loop (Suc k) (mark ps f (seen ps s j)) ?a ?b f = Some ?ps2"
      unfolding step by (simp only: if_False simp_thms)
    also have "?ps2 = mark ps f (cycle_pts ps s N)"
      unfolding True by (simp only: seen_cycle [OF cyc])
    finally show ?thesis using True by simp
  next
    case False
    with Suc.prems have lt: "Suc j < N" by simp
    from False have "(nxt ps ^^ Suc j) s \<noteq> (nxt ps ^^ (2 * Suc j)) s"
      using meet_orbit [OF cyc Suc.prems] by (simp only: simp_thms)
    then have "path_loop (Suc k) (mark ps f (seen ps s j)) ?a ?b f =
        path_loop k ?ps2 ((nxt ps ^^ Suc j) s) ((nxt ps ^^ (2 * Suc j)) s) f"
      unfolding step by (simp only: if_True simp_thms)
    also have "\<dots> = (if k < N - Suc j then None else Some (mark ps f (cycle_pts ps s N)))"
      by (rule Suc.IH [OF lt])
    also have "\<dots> = (if Suc k < N - j then None else Some (mark ps f (cycle_pts ps s N)))"
    proof -
      have "k < N - Suc j \<longleftrightarrow> Suc k < N - j" using lt by linarith
      then show ?thesis by (simp only:)
    qed
    finally show ?thesis .
  qed
qed

lemma path_loop_from_start:
  assumes cyc: "path_cycle ps s N"
  shows "path_loop k ps s s f = (if k < N then None else Some (mark ps f (cycle_pts ps s N)))"
proof -
  have "seen ps s 0 = {}" by (simp add: seen_def)
  then have "mark ps f (seen ps s 0) = ps" by (simp only: mark_empty)
  then show ?thesis
    using path_loop_run [OF cyc, of 0 k f] path_cycleD(1) [OF cyc] by simp
qed

text \<open>
  C3. On a path cycle of length \<open>N \<ge> 1\<close> through the start index, the tortoise-and-hare
  loop of \<open>sol_swch_step\<close> and \<open>sol_swch_test\<close> ends after exactly \<open>N\<close> iterations: a bound
  below \<open>N\<close> is reached, and any bound from \<open>N\<close> on gives the same result. The result
  has the new flag at every point of the cycle and is the old array everywhere else.
\<close>

theorem path_loop_cycle:
  assumes "path_cycle ps s N"
  shows "(path_loop k ps s s f = None \<longleftrightarrow> k < N)
    \<and> (\<exists>ps'. (\<forall>k\<ge>N. path_loop k ps s s f = Some ps')
          \<and> length ps' = length ps
          \<and> (\<forall>i<length ps. ps' ! i =
                (if int i \<in> cycle_pts ps s N then (ps ! i)\<lparr>path_f := f\<rparr> else ps ! i))
          \<and> (\<forall>m. path_f (rd ps' ((nxt ps ^^ m) s)) = f))"
proof -
  let ?ps' = "mark ps f (cycle_pts ps s N)"
  have run: "path_loop k ps s s f = (if k < N then None else Some ?ps')" for k
    by (rule path_loop_from_start [OF assms])
  have a: "path_loop k ps s s f = None \<longleftrightarrow> k < N"
    unfolding run by simp
  have b: "\<forall>k\<ge>N. path_loop k ps s s f = Some ?ps'"
    unfolding run by simp
  have c: "length ?ps' = length ps" by (rule length_mark)
  have d: "\<forall>i<length ps. ?ps' ! i =
      (if int i \<in> cycle_pts ps s N then (ps ! i)\<lparr>path_f := f\<rparr> else ps ! i)"
    by (simp add: nth_mark)
  have e: "path_f (rd ?ps' ((nxt ps ^^ m) s)) = f" for m
  proof -
    have r: "in_range ps ((nxt ps ^^ m) s)" by (rule orbit_in_range [OF assms])
    have i: "(nxt ps ^^ m) s \<in> cycle_pts ps s N" by (rule orbit_in_cycle [OF assms])
    from r have n: "nat ((nxt ps ^^ m) s) < length ps" by (rule in_range_nat)
    from r have "int (nat ((nxt ps ^^ m) s)) = (nxt ps ^^ m) s" by (simp add: in_range_def)
    with i n show ?thesis by (simp add: rd_def nth_mark)
  qed
  from a b c d e show ?thesis by (intro conjI exI [of _ ?ps']) simp_all
qed

lemma ring3_cycle: "path_cycle ring3 0 3"
  by (simp add: path_cycle_def nxt_def rd_def ring3_def in_range_def numeral_3_eq_3 upt_rec)

theorem path_loop_cycle_witness:
  "path_cycle ring3 0 3 \<and> path_loop 2 ring3 0 0 1 = None
   \<and> path_loop 3 ring3 0 0 1 = Some (map (\<lambda>p. p\<lparr>path_f := 1\<rparr>) ring3)"
proof -
  have "path_loop 2 ring3 0 0 1 = None"
    using path_loop_cycle [OF ring3_cycle, of 2 1] by simp
  moreover have "path_loop 3 ring3 0 0 1 = Some (map (\<lambda>p. p\<lparr>path_f := 1\<rparr>) ring3)"
    by (simp add: numeral_3_eq_3 ring3_def set_path_f_def rd_def)
  ultimately show ?thesis using ring3_cycle by simp
qed

section \<open>Properties of the step\<close>

lemma child_returns:
  assumes "c \<Longrightarrow> \<exists>r. call = Some r"
  shows "\<exists>r. (if c then (case call of None \<Rightarrow> None | Some uU \<Rightarrow> Some (F uU)) else Some st) = Some r"
proof (cases c)
  case True
  with assms obtain r where "call = Some r" by blast
  with True show ?thesis by simp
next
  case False
  then show ?thesis by simp
qed

lemma bind_returns:
  assumes "\<exists>r. A = Some r" and "\<And>st. \<exists>r. B st = Some r"
  shows "\<exists>r. (case A of None \<Rightarrow> None | Some st \<Rightarrow> B st) = Some r"
proof -
  from assms(1) obtain a where "A = Some a" by blast
  with assms(2) [of a] show ?thesis by simp
qed

lemma sol_test_node_returns:
  "node_ok fp d ni \<Longrightarrow> \<exists>r. sol_test_node d dt T up fp ni oo w = Some r"
proof (induction d arbitrary: dt T ni)
  case 0
  then show ?case by simp
next
  case (Suc d)
  let ?np = "rd (nv fp) ni"
  from Suc.prems have oks:
    "node_ni ?np \<ge> 0 \<Longrightarrow> node_ok fp d (node_ni ?np)"
    "node_nj ?np \<ge> 0 \<Longrightarrow> node_ok fp d (node_nj ?np)"
    by (simp_all split: if_splits)
  have f: "\<exists>r. sol_test_node d dt' T' up fp (node_ni ?np) oo w = Some r"
    if "node_ni ?np \<ge> 0 \<and> c" for dt' T' c
    using that oks(1) by (intro Suc.IH) simp
  have b: "\<exists>r. sol_test_node d dt' T' up fp (node_nj ?np) oo w = Some r"
    if "node_nj ?np \<ge> 0 \<and> c" for dt' T' c
    using that oks(2) by (intro Suc.IH) simp
  show ?case
    unfolding sol_test_node.simps Let_def
    apply (rule bind_returns)
     apply (rule child_returns)
     apply (erule f)
    apply (rule bind_returns)
     apply (rule child_returns)
     apply (erule b)
    apply (rule exI)
    apply (rule refl)
    done
qed

lemma file_loop_returns:
  "list_all (\<lambda>bp. node_ok fp k (body_ni bp)) bs \<Longrightarrow> \<exists>r. file_loop k up fp tTV UW bs = Some r"
proof (induction bs arbitrary: tTV UW)
  case Nil
  show ?case by (intro exI) simp
next
  case (Cons bp bs)
  then have "node_ok fp k (body_ni bp)" by simp
  then obtain r where "sol_test_node k (fst tTV) v_zero up fp (body_ni bp) (sol_body_p fp bp) (sol_body_v fp bp) = Some r"
    using sol_test_node_returns by blast
  then obtain q where "sol_test_body k (fst tTV) (fst UW) (snd UW) up fp bp = Some q"
    by (simp add: sol_test_body_def Let_def)
  with Cons show ?case by simp
qed

lemma sol_test_file_returns:
  "level_ok k fp \<Longrightarrow> \<exists>r. sol_test_file k dt T V up fp = Some r"
  unfolding sol_test_file_def level_ok_def by (intro file_loop_returns) simp

lemma set_path_f_links: "map path_pi (set_path_f ps i f) = map path_pi ps"
proof (cases "nat i < length ps")
  case True
  have "map path_pi (set_path_f ps i f) = (map path_pi ps)[nat i := path_pi (ps ! nat i)]"
    by (simp add: set_path_f_def rd_def map_update)
  also have "\<dots> = map path_pi ps"
    using True by (simp add: list_update_same_conv)
  finally show ?thesis .
next
  case False
  then have "ps[nat i := (rd ps i)\<lparr>path_f := f\<rparr>] = ps" by (intro list_update_beyond) simp
  then show ?thesis by (simp only: set_path_f_def)
qed

lemma path_loop_links:
  "path_loop k ps a b f = Some ps' \<Longrightarrow> map path_pi ps' = map path_pi ps"
proof (induction k arbitrary: ps a b)
  case 0
  then show ?case by simp
next
  case (Suc k)
  let ?ps2 = "set_path_f (set_path_f ps a f) b f"
  have l: "map path_pi ?ps2 = map path_pi ps" by (simp only: set_path_f_links)
  show ?case
  proof (cases "nxt ?ps2 a \<noteq> nxt ?ps2 (nxt ?ps2 b)")
    case True
    with Suc.prems have "path_loop k ?ps2 (nxt ?ps2 a) (nxt ?ps2 (nxt ?ps2 b)) f = Some ps'"
      unfolding path_loop_Suc Let_def by (simp only: if_True simp_thms)
    then have "map path_pi ps' = map path_pi ?ps2" by (rule Suc.IH)
    with l show ?thesis by (simp only:)
  next
    case False
    with Suc.prems have "ps' = ?ps2"
      unfolding path_loop_Suc Let_def by (simp only: if_False option.inject simp_thms)
    with l show ?thesis by (simp only:)
  qed
qed

lemma links_nxt:
  assumes "map path_pi ps' = map path_pi ps" and "in_range ps i"
  shows "nxt ps' i = nxt ps i"
proof -
  from assms(2) have n: "nat i < length ps" by (rule in_range_nat)
  from assms(1) have "length ps' = length ps" by (rule map_eq_imp_length_eq)
  with n have "path_pi (ps' ! nat i) = map path_pi ps' ! nat i" by simp
  also have "\<dots> = map path_pi ps ! nat i" by (simp only: assms(1))
  also have "\<dots> = path_pi (ps ! nat i)" using n by simp
  finally show ?thesis by (simp only: nxt_def rd_def)
qed

lemma links_orbit:
  assumes l: "map path_pi ps' = map path_pi ps" and cyc: "path_cycle ps s N"
  shows "(nxt ps' ^^ m) s = (nxt ps ^^ m) s"
proof (induction m)
  case 0
  show ?case by simp
next
  case (Suc m)
  have "(nxt ps' ^^ Suc m) s = nxt ps' ((nxt ps ^^ m) s)" by (simp add: Suc)
  also have "\<dots> = nxt ps ((nxt ps ^^ m) s)"
    by (rule links_nxt [OF l orbit_in_range [OF cyc]])
  finally show ?case by simp
qed

lemma path_cycle_links:
  assumes l: "map path_pi ps' = map path_pi ps" and cyc: "path_cycle ps s N"
  shows "path_cycle ps' s N"
proof -
  from l have "length ps' = length ps" by (rule map_eq_imp_length_eq)
  then have r: "in_range ps' = in_range ps" by (simp add: in_range_def fun_eq_iff)
  from cyc show ?thesis
    unfolding path_cycle_def r links_orbit [OF l cyc] .
qed

lemma node_ok_nv: "nv fp' = nv fp \<Longrightarrow> node_ok fp' d ni = node_ok fp d ni"
  by (induction d arbitrary: ni) simp_all

lemma level_ok_shape:
  assumes s: "shape fp' = shape fp" and ok: "level_ok k fp"
  shows "level_ok k fp'"
proof -
  from s have n: "nv fp' = nv fp" and b: "map body_ni (bv fp') = map body_ni (bv fp)"
    and p: "map path_pi (pv fp') = map path_pi (pv fp)"
    and x: "map swch_pi (xv fp') = map swch_pi (xv fp)"
    by (simp_all add: shape_def)
  have "list_all (node_ok fp k) (map body_ni (bv fp))"
    using ok by (simp add: level_ok_def list.pred_map comp_def)
  moreover have "node_ok fp' k = node_ok fp k"
    by (rule ext) (rule node_ok_nv [OF n])
  ultimately have "list_all (node_ok fp' k) (map body_ni (bv fp'))"
    by (simp only: b)
  then have 1: "list_all (\<lambda>bp. node_ok fp' k (body_ni bp)) (bv fp')"
    by (simp add: list.pred_map comp_def)
  have "list_all (\<lambda>s. list_ex (\<lambda>N. path_cycle (pv fp) s N) [1 ..< Suc k]) (map swch_pi (xv fp))"
    using ok by (simp add: level_ok_def list.pred_map comp_def)
  then have "list_all (\<lambda>s. list_ex (\<lambda>N. path_cycle (pv fp') s N) [1 ..< Suc k]) (map swch_pi (xv fp'))"
    unfolding x list_all_iff list_ex_iff using path_cycle_links [OF p] by fast
  then have 2: "list_all (\<lambda>xp. list_ex (\<lambda>N. path_cycle (pv fp') (swch_pi xp) N) [1 ..< Suc k]) (xv fp')"
    by (simp add: list.pred_map comp_def)
  from 1 2 show ?thesis by (simp add: level_ok_def)
qed

lemma path_loop_returns:
  assumes "list_ex (\<lambda>N. path_cycle ps s N) [1 ..< Suc k]"
  shows "\<exists>ps'. path_loop k ps s s f = Some ps' \<and> map path_pi ps' = map path_pi ps"
proof -
  from assms obtain N where cyc: "path_cycle ps s N" and "N \<le> k"
    unfolding list_ex_iff by auto
  then have "path_loop k ps s s f = Some (mark ps f (cycle_pts ps s N))"
    by (simp add: path_loop_from_start [OF cyc])
  then show ?thesis using path_loop_links by blast
qed

lemma swch_step1_ok:
  assumes ok: "level_ok k fp" and xi: "xi < length (xv fp)"
  shows "\<exists>fp'. swch_step1 k dt fp xi = Some fp' \<and> shape fp' = shape fp"
proof -
  let ?xp = "xv fp ! xi"
  from ok xi have "list_ex (\<lambda>N. path_cycle (pv fp) (swch_pi ?xp) N) [1 ..< Suc k]"
    by (simp add: level_ok_def list_all_length)
  then obtain ps' where p: "path_loop k (pv fp) (swch_pi ?xp) (swch_pi ?xp) (swch_f0 ?xp) = Some ps'"
    and l: "map path_pi ps' = map path_pi (pv fp)"
    using path_loop_returns by blast
  have u: "map swch_pi ((xv fp)[xi := y]) = map swch_pi (xv fp)" if "swch_pi y = swch_pi ?xp" for y
    using that by (simp add: map_update list_update_same_conv xi)
  show ?thesis
    using p l u by (simp add: swch_step1_def Let_def shape_def)
qed

lemma swch_loop_ok:
  "level_ok k fp \<Longrightarrow> \<forall>xi\<in>set xs. xi < length (xv fp) \<Longrightarrow>
   \<exists>fp'. swch_loop k dt fp xs = Some fp' \<and> shape fp' = shape fp"
proof (induction xs arbitrary: fp)
  case Nil
  show ?case by simp
next
  case (Cons xi xs)
  from Cons.prems obtain fp1 where 1: "swch_step1 k dt fp xi = Some fp1" and s1: "shape fp1 = shape fp"
    using swch_step1_ok [of k fp xi dt] by auto
  from s1 have "length (map swch_pi (xv fp1)) = length (map swch_pi (xv fp))"
    by (simp add: shape_def)
  then have len: "length (xv fp1) = length (xv fp)" by simp
  have "\<exists>fp'. swch_loop k dt fp1 xs = Some fp' \<and> shape fp' = shape fp1"
    using Cons.prems len by (intro Cons.IH level_ok_shape [OF s1]) simp_all
  with 1 s1 show ?case by auto
qed

lemma sol_swch_step_ok:
  "level_ok k fp \<Longrightarrow> \<exists>fp'. sol_swch_step k fp dt = Some fp' \<and> shape fp' = shape fp"
  unfolding sol_swch_step_def by (rule swch_loop_ok) simp_all

lemma shape_body_step: "shape (sol_body_step fp dt) = shape fp"
  by (simp add: shape_def sol_body_step_def body_step1_def Let_def)

lemma shape_ball_step: "shape (sol_ball_step rot fp dt) = shape fp"
  by (simp add: shape_def sol_ball_step_def)

lemma shape_set_ball: "shape (set_ball fp ui up) = shape fp"
  by (simp add: shape_def set_ball_def)

lemma advance_ok:
  assumes "level_ok k fp"
  shows "\<exists>fp'. sol_swch_step k (sol_body_step fp dt) dt = Some fp' \<and> shape fp' = shape fp"
proof -
  have "level_ok k (sol_body_step fp dt)"
    using shape_body_step assms by (rule level_ok_shape)
  then obtain fp' where "sol_swch_step k (sol_body_step fp dt) dt = Some fp'"
    and "shape fp' = shape (sol_body_step fp dt)"
    using sol_swch_step_ok by blast
  then show ?thesis by (simp add: shape_body_step)
qed

lemma step_loop_Suc_cases:
  assumes "step_loop rot k (Suc c) fp ui tt b P V = Some r"
  shows "r = (fp, tt, b, Suc c)
    \<or> (\<exists>fp1 tt1 b1 P1 V1. b \<le> b1 \<and> step_loop rot k c fp1 ui tt1 b1 P1 V1 = Some r)"
proof (cases "tt > 0")
  case False
  with assms show ?thesis by simp
next
  case pos: True
  show ?thesis
  proof (cases "sol_test_file k tt P V (rd (uv fp) ui) fp")
    case None
    with assms pos show ?thesis by simp
  next
    case (Some q)
    obtain nt P1 V1 where q: "q = (nt, P1, V1)" by (cases q)
    show ?thesis
    proof (cases "tt > nt")
      case False
      with assms pos Some q show ?thesis by simp
    next
      case hit: True
      show ?thesis
      proof (cases "sol_swch_step k (sol_body_step fp nt) nt")
        case None
        with assms pos Some q hit show ?thesis by (simp add: Let_def)
      next
        case (Some fp2)
        let ?fp3 = "sol_ball_step rot fp2 nt"
        let ?ud = "sol_bounce (rd (uv ?fp3) ui) P1 V1 nt"
        have "step_loop rot k c (set_ball ?fp3 ui (fst ?ud)) ui (tt - nt)
                (if b < snd ?ud then snd ?ud else b) P1 V1 = Some r"
          using assms pos \<open>sol_test_file k tt P V (rd (uv fp) ui) fp = Some q\<close> q hit Some
          by (simp add: Let_def)
        moreover have "b \<le> (if b < snd ?ud then snd ?ud else b)" by simp
        ultimately show ?thesis by blast
      qed
    qed
  qed
qed

lemma step_loop_bounds:
  "step_loop rot k c fp ui tt b P V = Some (fp', tt', b', c')
   \<Longrightarrow> c' \<le> c \<and> b \<le> b' \<and> (c' = c \<longrightarrow> b' = b)"
proof (induction c arbitrary: fp tt b P V)
  case 0
  then show ?case by simp
next
  case (Suc c)
  from step_loop_Suc_cases [OF Suc.prems]
  consider "(fp', tt', b', c') = (fp, tt, b, Suc c)"
    | fp1 tt1 b1 P1 V1 where "b \<le> b1" "step_loop rot k c fp1 ui tt1 b1 P1 V1 = Some (fp', tt', b', c')"
    by blast
  then show ?case
  proof cases
    case 1
    then show ?thesis by simp
  next
    case 2
    from Suc.IH [OF 2(2)] 2(1) show ?thesis by simp
  qed
qed

lemma step_loop_returns:
  "level_ok k fp \<Longrightarrow>
   \<exists>fp' tt' b' c'. step_loop rot k c fp ui tt b P V = Some (fp', tt', b', c') \<and> shape fp' = shape fp"
proof (induction c arbitrary: fp tt b P V)
  case 0
  show ?case by simp
next
  case (Suc c)
  show ?case
  proof (cases "tt > 0")
    case False
    then show ?thesis by simp
  next
    case pos: True
    obtain q where t: "sol_test_file k tt P V (rd (uv fp) ui) fp = Some q"
      using sol_test_file_returns [OF Suc.prems] by blast
    obtain nt P1 V1 where q: "q = (nt, P1, V1)" by (cases q)
    show ?thesis
    proof (cases "tt > nt")
      case False
      with pos t q show ?thesis by simp
    next
      case hit: True
      obtain fp2 where a: "sol_swch_step k (sol_body_step fp nt) nt = Some fp2"
        and s2: "shape fp2 = shape fp"
        using advance_ok [OF Suc.prems] by blast
      let ?fp3 = "sol_ball_step rot fp2 nt"
      let ?ud = "sol_bounce (rd (uv ?fp3) ui) P1 V1 nt"
      let ?fp4 = "set_ball ?fp3 ui (fst ?ud)"
      have s4: "shape ?fp4 = shape fp"
        by (simp only: shape_set_ball shape_ball_step s2)
      then have "level_ok k ?fp4" using Suc.prems by (rule level_ok_shape)
      then obtain fp' tt' b' c' where
        r: "step_loop rot k c ?fp4 ui (tt - nt) (if b < snd ?ud then snd ?ud else b) P1 V1
              = Some (fp', tt', b', c')" and s': "shape fp' = shape ?fp4"
        using Suc.IH by blast
      have "step_loop rot k (Suc c) fp ui tt b P V = Some (fp', tt', b', c')"
        using pos t q hit a r by (simp add: Let_def)
      with s' s4 show ?thesis by simp
    qed
  qed
qed

lemma step_friction_returns:
  assumes "level_ok k fp"
  shows "\<exists>r. step_friction k fp g dt up m = Some r"
proof -
  have "step_friction k fp g dt up m \<noteq> None"
  proof (cases m)
    case None
    then show ?thesis by (simp add: step_friction_def)
  next
    case (Some mc)
    obtain q where t: "sol_test_file k dt v_zero v_zero (up\<lparr>ball_v := g\<rparr>) fp = Some q"
      using sol_test_file_returns [OF assms] by blast
    obtain t P V where q: "q = (t, P, V)" by (cases q)
    show ?thesis
      unfolding step_friction_def Let_def Some option.case t q prod.case
      by (simp only: if_distrib [of "\<lambda>x. x \<noteq> None"] option.distinct simp_thms if_cancel)
  qed
  then show ?thesis by blast
qed

lemma sol_step_total:
  assumes ok: "level_ok k fp" and ui: "ui < int (length (uv fp))"
  shows "\<exists>up m1 P V fp1 tt b c fp2.
      step_friction k fp g dt (rd (uv fp) ui) m = Some (up, m1, P, V)
    \<and> step_loop rot k 16 (set_ball fp ui up) ui dt 0 P V = Some (fp1, tt, b, c)
    \<and> sol_swch_step k (sol_body_step fp1 tt) tt = Some fp2
    \<and> sol_step rot k fp g dt ui m =
        Some (b, set_ball (sol_ball_step rot fp2 tt) ui
                   (sol_pendulum rot (rd (uv (sol_ball_step rot fp2 tt)) ui)
                      (v_sub (ball_v (rd (uv (sol_ball_step rot fp2 tt)) ui))
                         (ball_v (rd (uv fp) ui))) g dt), m1)"
proof -
  obtain q where f: "step_friction k fp g dt (rd (uv fp) ui) m = Some q"
    using step_friction_returns [OF ok] by blast
  obtain up m1 P V where q: "q = (up, m1, P, V)" by (cases q)
  have "level_ok k (set_ball fp ui up)"
    using shape_set_ball ok by (rule level_ok_shape)
  then obtain fp1 tt b c where
    l: "step_loop rot k 16 (set_ball fp ui up) ui dt 0 P V = Some (fp1, tt, b, c)"
    and s1: "shape fp1 = shape (set_ball fp ui up)"
    using step_loop_returns by blast
  from s1 have "shape fp1 = shape fp" by (simp only: shape_set_ball)
  then have "level_ok k fp1" using ok by (rule level_ok_shape)
  then obtain fp2 where a: "sol_swch_step k (sol_body_step fp1 tt) tt = Some fp2"
    using advance_ok by blast
  have "sol_step rot k fp g dt ui m =
        Some (b, set_ball (sol_ball_step rot fp2 tt) ui
                   (sol_pendulum rot (rd (uv (sol_ball_step rot fp2 tt)) ui)
                      (v_sub (ball_v (rd (uv (sol_ball_step rot fp2 tt)) ui))
                         (ball_v (rd (uv fp) ui))) g dt), m1)"
    using ui f q l a by (simp add: sol_step_def Let_def)
  with f q l a show ?thesis by blast
qed

lemma step_energy_cases:
  assumes "sol_step rot k fp g dt ui m = Some (b, fp', m')"
  shows "(\<not> ui < int (length (uv fp)) \<and> b = 0 \<and> step_contacts rot k fp g dt ui m = Some 0)
    \<or> (\<exists>fp0 P V fp1 tt c. step_loop rot k 16 fp0 ui dt 0 P V = Some (fp1, tt, b, c)
          \<and> step_contacts rot k fp g dt ui m = Some (16 - c))"
proof (cases "ui < int (length (uv fp))")
  case False
  with assms show ?thesis by (simp add: sol_step_def step_contacts_def)
next
  case True
  from assms True obtain q where f: "step_friction k fp g dt (rd (uv fp) ui) m = Some q"
    by (cases "step_friction k fp g dt (rd (uv fp) ui) m") (simp_all add: sol_step_def Let_def)
  obtain up m1 P V where q: "q = (up, m1, P, V)" by (cases q)
  from assms True f q obtain z where l: "step_loop rot k 16 (set_ball fp ui up) ui dt 0 P V = Some z"
    by (cases "step_loop rot k 16 (set_ball fp ui up) ui dt 0 P V") (simp_all add: sol_step_def Let_def)
  obtain fp1 tt b1 c where z: "z = (fp1, tt, b1, c)" by (cases z)
  from assms True f q l z have "b1 = b"
    by (simp add: sol_step_def Let_def split: option.splits)
  with True f q l z have "step_loop rot k 16 (set_ball fp ui up) ui dt 0 P V = Some (fp1, tt, b, c)
      \<and> step_contacts rot k fp g dt ui m = Some (16 - c)"
    by (simp add: step_contacts_def)
  then show ?thesis by blast
qed

lemma sol_step_some:
  assumes "level_ok k fp"
  shows "\<exists>r. sol_step rot k fp g dt ui m = Some r"
proof (cases "ui < int (length (uv fp))")
  case True
  from sol_step_total [OF assms True] show ?thesis by blast
next
  case False
  then have "sol_step rot k fp g dt ui m = Some (0, fp, m)" by (simp add: sol_step_def)
  then show ?thesis by blast
qed

text \<open>
  C4. On a well-formed level \<open>sol_step\<close> returns. The loop resolves at most 16 contacts.
  For a ball of the level, the result is the energy the loop leaves, and the level is
  the one the loop leaves, advanced by the remaining time \<open>tt\<close> (bodies, switches, balls,
  then the pendulum) with no further test for contact.
\<close>

theorem sol_step_returns:
  assumes "level_ok k fp"
  shows "(\<exists>r. sol_step rot k fp g dt ui m = Some r)
    \<and> (\<exists>n. step_contacts rot k fp g dt ui m = Some n \<and> n \<le> 16)
    \<and> (ui < int (length (uv fp)) \<longrightarrow>
         (\<exists>up m1 P V fp1 tt b c fp2.
            step_friction k fp g dt (rd (uv fp) ui) m = Some (up, m1, P, V)
          \<and> step_loop rot k 16 (set_ball fp ui up) ui dt 0 P V = Some (fp1, tt, b, c)
          \<and> sol_swch_step k (sol_body_step fp1 tt) tt = Some fp2
          \<and> sol_step rot k fp g dt ui m =
              Some (b, set_ball (sol_ball_step rot fp2 tt) ui
                         (sol_pendulum rot (rd (uv (sol_ball_step rot fp2 tt)) ui)
                            (v_sub (ball_v (rd (uv (sol_ball_step rot fp2 tt)) ui))
                               (ball_v (rd (uv fp) ui))) g dt), m1)))"
proof -
  have 1: "\<exists>r. sol_step rot k fp g dt ui m = Some r"
    by (rule sol_step_some [OF assms])
  have 2: "\<exists>n. step_contacts rot k fp g dt ui m = Some n \<and> n \<le> 16"
  proof (cases "ui < int (length (uv fp))")
    case True
    from sol_step_total [OF assms True, of g dt m rot] obtain up m1 P V fp1 tt b c where
      "step_friction k fp g dt (rd (uv fp) ui) m = Some (up, m1, P, V)"
      "step_loop rot k 16 (set_ball fp ui up) ui dt 0 P V = Some (fp1, tt, b, c)"
      by blast
    with True have "step_contacts rot k fp g dt ui m = Some (16 - c)"
      by (simp add: step_contacts_def)
    moreover have "16 - c \<le> 16" by simp
    ultimately show ?thesis by blast
  next
    case False
    then have "step_contacts rot k fp g dt ui m = Some 0" by (simp add: step_contacts_def)
    then show ?thesis by simp
  qed
  from 1 2 sol_step_total [OF assms, of ui g dt m rot] show ?thesis by blast
qed

text \<open>
  C9. On a well-formed level \<open>sol_step\<close> returns, and whenever it returns, the energy it
  returns is not negative, and is 0 when the loop resolved no contact.
\<close>

theorem sol_step_energy:
  "(level_ok k fp \<longrightarrow> (\<exists>r. sol_step rot k fp g dt ui m = Some r))
   \<and> (sol_step rot k fp g dt ui m = Some (b, fp', m') \<longrightarrow>
        0 \<le> b \<and> (step_contacts rot k fp g dt ui m = Some 0 \<longrightarrow> b = 0))"
proof (intro conjI impI)
  assume "level_ok k fp"
  then show "\<exists>r. sol_step rot k fp g dt ui m = Some r" by (rule sol_step_some)
next
  assume r: "sol_step rot k fp g dt ui m = Some (b, fp', m')"
  from step_energy_cases [OF r]
  consider "b = 0"
    | fp0 P V fp1 tt c where "step_loop rot k 16 fp0 ui dt 0 P V = Some (fp1, tt, b, c)"
        "step_contacts rot k fp g dt ui m = Some (16 - c)"
    by blast
  then show "0 \<le> b"
  proof cases
    case 1
    then show ?thesis by simp
  next
    case 2
    from step_loop_bounds [OF 2(1)] show ?thesis by simp
  qed
next
  assume r: "sol_step rot k fp g dt ui m = Some (b, fp', m')"
    and z: "step_contacts rot k fp g dt ui m = Some 0"
  from step_energy_cases [OF r]
  consider "b = 0"
    | fp0 P V fp1 tt c where "step_loop rot k 16 fp0 ui dt 0 P V = Some (fp1, tt, b, c)"
        "step_contacts rot k fp g dt ui m = Some (16 - c)"
    by blast
  then show "b = 0"
  proof cases
    case 1
    then show ?thesis .
  next
    case 2
    from step_loop_bounds [OF 2(1)] have "c \<le> 16" "c = 16 \<longrightarrow> b = 0" by simp_all
    moreover from z 2(2) have "16 - c = 0" by simp
    ultimately show ?thesis by simp
  qed
qed

lemma lvl_floor_ok: "level_ok 1 lvl_floor"
  by (simp add: level_ok_def lvl_floor_def lvl_none_def in_range_def rd_def)

lemmas lvl_defs = lvl_floor_def lvl_none_def mk_ball_def rd_def v_zero_def LARGE_def L_DETAIL_def

lemmas test_defs = sol_test_file_def sol_test_body_def sol_body_p_def sol_body_v_def
      node_lump_step_def sol_test_lump_def lump_side_step_def sol_test_side_def v_side_def
      outside_side_def keep_min_def fin_def sol_test_fore_def sol_test_back_def

lemmas move_defs = sol_body_step_def body_step1_def sol_swch_step_def sol_ball_step_def
      ball_step1_def sol_rotate_def sol_bounce_def sol_pendulum_def set_ball_def v_len_def
      v_nrm_def rot_id_def

lemma floor_loop:
  "step_loop rot_id 1 (Suc (Suc c)) lvl_floor 0 2 0 v_zero v_zero
     = Some (lvl_floor\<lparr>uv := [mk_ball (0, 1, 0) (0, 7 / 10, 0) 1]\<rparr>, 1, 1, Suc c)"
  by (simp add: test_defs move_defs Let_def lvl_defs)

lemma floor_step:
  "sol_step rot_id 1 lvl_floor (0, 0, 0) 2 0 None
     = Some (1, lvl_floor\<lparr>uv := [mk_ball (0, 17 / 10, 0) (0, 7 / 10, 0) 1]\<rparr>, None)
   \<and> step_contacts rot_id 1 lvl_floor (0, 0, 0) 2 0 None = Some 1"
proof -
  have n: "(16::nat) = Suc (Suc 14)" by simp
  have f: "step_friction 1 lvl_floor (0, 0, 0) 2 (rd (uv lvl_floor) 0) None
      = Some (mk_ball (0, 2, 0) (0, - 1, 0) 1, None, v_zero, v_zero)"
    by (simp add: step_friction_def lvl_defs)
  have s: "set_ball lvl_floor 0 (mk_ball (0, 2, 0) (0, - 1, 0) 1) = lvl_floor"
    by (simp add: set_ball_def lvl_floor_def lvl_none_def)
  have l: "step_loop rot_id 1 16 lvl_floor 0 2 0 v_zero v_zero
     = Some (lvl_floor\<lparr>uv := [mk_ball (0, 1, 0) (0, 7 / 10, 0) 1]\<rparr>, 1, 1, 15)"
    unfolding n floor_loop by simp
  have u: "0 < int (length (uv lvl_floor))" by (simp add: lvl_floor_def lvl_none_def)
  show ?thesis
    unfolding sol_step_def step_contacts_def
    by (simp only: u if_True f option.case prod.case s l)
       (simp add: move_defs Let_def lvl_defs)
qed

lemma floor_miss:
  "sol_step rot_id 1 lvl_floor (0, 0, 0) (1 / 2) 0 None
     = Some (0, lvl_floor\<lparr>uv := [mk_ball (0, 3 / 2, 0) (0, - 1, 0) 1]\<rparr>, None)
   \<and> step_contacts rot_id 1 lvl_floor (0, 0, 0) (1 / 2) 0 None = Some 0"
proof -
  have n: "(16::nat) = Suc 15" by simp
  have f: "step_friction 1 lvl_floor (0, 0, 0) (1 / 2) (rd (uv lvl_floor) 0) None
      = Some (mk_ball (0, 2, 0) (0, - 1, 0) 1, None, v_zero, v_zero)"
    by (simp add: step_friction_def lvl_defs)
  have s: "set_ball lvl_floor 0 (mk_ball (0, 2, 0) (0, - 1, 0) 1) = lvl_floor"
    by (simp add: set_ball_def lvl_floor_def lvl_none_def)
  have "step_loop rot_id 1 (Suc c) lvl_floor 0 (1 / 2) 0 v_zero v_zero
     = Some (lvl_floor, 1 / 2, 0, Suc c)" for c
    by (simp add: test_defs Let_def lvl_defs)
  then have l: "step_loop rot_id 1 16 lvl_floor 0 (1 / 2) 0 v_zero v_zero
     = Some (lvl_floor, 1 / 2, 0, 16)"
    unfolding n .
  have u: "0 < int (length (uv lvl_floor))" by (simp add: lvl_floor_def lvl_none_def)
  show ?thesis
    unfolding sol_step_def step_contacts_def
    by (simp only: u if_True f option.case prod.case s l)
       (simp add: move_defs Let_def lvl_defs)
qed

theorem sol_step_returns_witness:
  "level_ok 1 lvl_floor
   \<and> sol_step rot_id 1 lvl_floor (0, 0, 0) 2 0 None
       = Some (1, lvl_floor\<lparr>uv := [mk_ball (0, 17 / 10, 0) (0, 7 / 10, 0) 1]\<rparr>, None)
   \<and> (\<exists>n. step_contacts rot_id 1 lvl_floor (0, 0, 0) 2 0 None = Some n \<and> n \<le> 16)"
proof -
  from sol_step_returns [OF lvl_floor_ok, of rot_id "(0, 0, 0)" 2 0 None]
  have "\<exists>n. step_contacts rot_id 1 lvl_floor (0, 0, 0) 2 0 None = Some n \<and> n \<le> 16"
    by (rule conjunct1 [OF conjunct2])
  with lvl_floor_ok floor_step show ?thesis by (simp only: simp_thms)
qed

theorem sol_step_energy_witness:
  "sol_step rot_id 1 lvl_floor (0, 0, 0) (1 / 2) 0 None
       = Some (0, lvl_floor\<lparr>uv := [mk_ball (0, 3 / 2, 0) (0, - 1, 0) 1]\<rparr>, None)
   \<and> step_contacts rot_id 1 lvl_floor (0, 0, 0) (1 / 2) 0 None = Some 0
   \<and> sol_step rot_id 1 lvl_floor (0, 0, 0) 2 0 None
       = Some (1, lvl_floor\<lparr>uv := [mk_ball (0, 17 / 10, 0) (0, 7 / 10, 0) 1]\<rparr>, None)
   \<and> (0 :: real) \<le> 1"
proof -
  from sol_step_energy [of 1 lvl_floor rot_id "(0, 0, 0)" 2 0 None 1
      "lvl_floor\<lparr>uv := [mk_ball (0, 17 / 10, 0) (0, 7 / 10, 0) 1]\<rparr>" None] floor_step
  have "(0 :: real) \<le> 1" by (simp only: simp_thms)
  with floor_miss floor_step show ?thesis by (simp only: simp_thms)
qed

text \<open>
  C10. For a ball index that is not less than the number of balls, \<open>sol_step\<close> returns 0
  and leaves the level and the counter as they are, whatever the bound on the inner
  loops.
\<close>

theorem sol_step_bad_ball:
  "\<not> ui < int (length (uv fp)) \<Longrightarrow> sol_step rot k fp g dt ui m = Some (0, fp, m)"
  by (simp add: sol_step_def)

theorem sol_step_bad_ball_witness:
  "\<not> 0 < int (length (uv lvl_none))
   \<and> sol_step rot_id 0 lvl_none (0, -1, 0) 1 0 None = Some (0, lvl_none, None)"
  using sol_step_bad_ball [of 0 lvl_none rot_id 0 "(0, -1, 0)" 1 None]
  by (simp add: lvl_none_def)

section \<open>Properties of the sensors\<close>

lemma item_loop_Cons:
  "item_loop n bp br ir (h # hs) k =
     (if item_hit n bp br ir h then Some (k, item_p h) else item_loop n bp br ir hs (Suc k))"
  by (simp add: item_hit_def)

lemma item_loop_None:
  "item_loop n bp br ir hs k = None \<longleftrightarrow> (\<forall>i<length hs. \<not> item_hit n bp br ir (hs ! i))"
proof (induction hs arbitrary: k)
  case Nil
  show ?case by simp
next
  case (Cons h hs)
  show ?case
    unfolding item_loop_Cons by (simp add: Cons.IH All_less_Suc2)
qed

lemma item_loop_Some:
  "item_loop n bp br ir hs k = Some (i, p) \<longleftrightarrow>
     k \<le> i \<and> i - k < length hs \<and> item_hit n bp br ir (hs ! (i - k))
     \<and> (\<forall>j<i - k. \<not> item_hit n bp br ir (hs ! j)) \<and> p = item_p (hs ! (i - k))"
proof (induction hs arbitrary: k)
  case Nil
  show ?case by simp
next
  case (Cons h hs)
  show ?case
  proof (cases "item_hit n bp br ir h")
    case True
    then have "item_loop n bp br ir (h # hs) k = Some (k, item_p h)"
      unfolding item_loop_Cons by simp
    moreover have "(k \<le> i \<and> i - k < length (h # hs) \<and> item_hit n bp br ir ((h # hs) ! (i - k))
       \<and> (\<forall>j<i - k. \<not> item_hit n bp br ir ((h # hs) ! j)) \<and> p = item_p ((h # hs) ! (i - k)))
       \<longleftrightarrow> i = k \<and> p = item_p h"
      using True by (cases "i - k") auto
    ultimately show ?thesis by auto
  next
    case False
    then have e: "item_loop n bp br ir (h # hs) k = item_loop n bp br ir hs (Suc k)"
      unfolding item_loop_Cons by simp
    show ?thesis
    proof (cases "i \<le> k")
      case True
      with False show ?thesis unfolding e Cons.IH by auto
    next
      case gt: False
      then obtain d where d: "i - k = Suc d" "i - Suc k = d"
        by (cases "i - k") auto
      from gt False show ?thesis
        unfolding e Cons.IH d by (auto simp: All_less_Suc2)
    qed
  qed
qed

text \<open>
  C8, as the code has it. \<open>sol_item_test\<close> returns the first item in storage order whose
  type is not \<open>ITEM_NONE\<close> and whose distance to the centre of the first ball is below
  ball radius + item radius, and none when there is no such item.
\<close>

theorem item_test_first:
  "(sol_item_test n fp ir = None \<longleftrightarrow>
      (\<forall>i<length (hv fp).
         \<not> item_hit n (ball_p (rd (uv fp) 0)) (ball_r (rd (uv fp) 0)) ir (hv fp ! i)))
   \<and> (sol_item_test n fp ir = Some (i, p) \<longleftrightarrow>
        i < length (hv fp)
        \<and> item_hit n (ball_p (rd (uv fp) 0)) (ball_r (rd (uv fp) 0)) ir (hv fp ! i)
        \<and> (\<forall>j<i. \<not> item_hit n (ball_p (rd (uv fp) 0)) (ball_r (rd (uv fp) 0)) ir (hv fp ! j))
        \<and> p = item_p (hv fp ! i))"
  by (simp add: sol_item_test_def item_loop_None item_loop_Some)

theorem item_test_first_witness:
  "sol_item_test 0 lvl_items 1 = Some (0, (1, 0, 0))
   \<and> item_hit 0 (ball_p (rd (uv lvl_items) 0)) (ball_r (rd (uv lvl_items) 0)) 1 (hv lvl_items ! 0)"
proof -
  have h: "item_hit 0 (ball_p (rd (uv lvl_items) 0)) (ball_r (rd (uv lvl_items) 0)) 1 (hv lvl_items ! 0)"
    by (simp add: item_hit_def lvl_items_def lvl_none_def rd_def v_len_def)
  have "0 < length (hv lvl_items)" "item_p (hv lvl_items ! 0) = (1, 0, 0)"
    by (simp_all add: lvl_items_def lvl_none_def)
  with h show ?thesis
    using item_test_first [of 0 lvl_items 1 0 "(1, 0, 0)"] by simp
qed

text \<open>
  C8 as stated fails: in \<open>lvl_items\<close> both items are within range, the second is nearer,
  and the first is returned.
\<close>

theorem item_test_nearest_counterexample:
  "sol_item_test 0 lvl_items 1 = Some (0, item_p (hv lvl_items ! 0))
   \<and> item_t (hv lvl_items ! 1) \<noteq> 0
   \<and> v_len (v_sub (ball_p (rd (uv lvl_items) 0)) (item_p (hv lvl_items ! 1)))
       < ball_r (rd (uv lvl_items) 0) + 1
   \<and> v_len (v_sub (ball_p (rd (uv lvl_items) 0)) (item_p (hv lvl_items ! 1)))
       < v_len (v_sub (ball_p (rd (uv lvl_items) 0)) (item_p (hv lvl_items ! 0)))"
  by (simp add: sol_item_test_def lvl_items_def lvl_none_def rd_def v_len_def)

section \<open>Properties of the node traversal\<close>

lemmas node_defs = node_lump_step_def sol_test_lump_def lump_side_step_def sol_test_side_def
  v_side_def outside_side_def keep_min_def fin_def sol_test_fore_def sol_test_back_def

lemma v_dot_commute: "v_dot a b = v_dot b a"
  by (cases a; cases b) simp

lemma v_dot_sub_left: "v_dot (v_sub a b) c = v_dot a c - v_dot b c"
  by (cases a; cases b; cases c) (simp add: algebra_simps)

lemma v_dot_add_left: "v_dot (v_add a b) c = v_dot a c + v_dot b c"
  by (cases a; cases b; cases c) (simp add: algebra_simps)

lemma v_dot_mad_left: "v_dot (v_mad a b t) c = v_dot a c + t * v_dot b c"
  by (cases a; cases b; cases c) (simp add: algebra_simps)

lemma v_dot_scl_left: "v_dot (v_scl a t) c = t * v_dot a c"
  by (cases a; cases c) (simp add: algebra_simps)

lemma cauchy_schwarz: "v_dot x n * v_dot x n \<le> v_dot x x * v_dot n n"
proof (cases x; cases n)
  fix a b c k l m
  assume x: "x = (a, b, c)" and n: "n = (k, l, m)"
  have "v_dot x x * v_dot n n - v_dot x n * v_dot x n
      = (a * l - b * k) * (a * l - b * k) + (a * m - c * k) * (a * m - c * k)
        + (b * m - c * l) * (b * m - c * l)"
    unfolding x n by (simp add: algebra_simps)
  moreover have "0 \<le> (a * l - b * k) * (a * l - b * k) + (a * m - c * k) * (a * m - c * k)
        + (b * m - c * l) * (b * m - c * l)"
    by (intro add_nonneg_nonneg zero_le_square)
  ultimately show ?thesis by linarith
qed

lemma v_dot_neg: "v_dot a (v_neg n) = - v_dot a n"
  by (cases a; cases n) (simp add: v_neg_def)

lemma dot_lower_bound:
  assumes "v_dot x x \<le> r * r" and "v_dot n n = 1" and "0 \<le> r"
  shows "- r \<le> v_dot x n"
proof (rule ccontr)
  assume "\<not> - r \<le> v_dot x n"
  then have lt: "v_dot x n < - r" by simp
  with assms(3) have "r * r < (- v_dot x n) * (- v_dot x n)"
    by (intro mult_strict_mono) simp_all
  then have "r * r < v_dot x n * v_dot x n" by simp
  moreover have "v_dot x n * v_dot x n \<le> r * r"
    using cauchy_schwarz [of x n] assms(1,2) by simp
  ultimately show False by simp
qed

lemma sol_test_fore_away:
  "sol_test_fore t up sp oo w = (\<not> away up oo (side_n sp) (side_d sp) t)"
  by (auto simp: sol_test_fore_def away_def Let_def)

lemma sol_test_back_away:
  "sol_test_back t up sp oo w = (\<not> away up oo (v_neg (side_n sp)) (- side_d sp) t)"
  by (auto simp: sol_test_back_def away_def Let_def v_dot_neg)

lemma away_between:
  assumes "away up oo n d t0" and "0 \<le> s" and "s \<le> t0"
  shows "v_dot (v_sub (v_mad (ball_p up) (ball_v up) s) oo) n - d + ball_r up < 0"
proof -
  let ?A = "v_dot (ball_p up) n - v_dot oo n - d + ball_r up"
  let ?B = "v_dot (ball_v up) n"
  from assms(1) have a: "?A < 0" and b: "?A + t0 * ?B < 0"
    by (simp_all add: away_def v_dot_sub_left v_dot_mad_left)
  have "s * ?B \<le> 0 \<or> s * ?B \<le> t0 * ?B"
  proof (cases "?B \<le> 0")
    case True
    with assms(2) show ?thesis by (simp add: mult_nonneg_nonpos)
  next
    case False
    with assms(3) show ?thesis by (simp add: mult_right_mono)
  qed
  with a b have "?A + s * ?B < 0" by linarith
  then show ?thesis by (simp add: v_dot_sub_left v_dot_mad_left)
qed

lemma touch_not_away:
  assumes aw: "away up oo n d t0" and s: "0 \<le> s" "s \<le> t0"
    and unit: "v_dot n n = 1" and r: "0 \<le> ball_r up"
    and front: "d \<le> v_dot y n"
    and near: "v_dot (v_sub (v_sub (v_mad (ball_p up) (ball_v up) s) oo) y)
                 (v_sub (v_sub (v_mad (ball_p up) (ball_v up) s) oo) y) \<le> ball_r up * ball_r up"
  shows False
proof -
  let ?c = "v_sub (v_mad (ball_p up) (ball_v up) s) oo"
  have "- ball_r up \<le> v_dot (v_sub ?c y) n"
    using near unit r by (rule dot_lower_bound)
  then have "- ball_r up \<le> v_dot ?c n - v_dot y n" by (simp only: v_dot_sub_left)
  with front have "0 \<le> v_dot ?c n - d + ball_r up" by linarith
  with away_between [OF aw s] show False by linarith
qed

lemma v_sol_root:
  assumes "v_sol p v r = Some t" and "t \<noteq> LARGE"
  shows "v_dot v v * t * t + v_dot v p * 2 * t + (v_dot p p - r * r) = 0
    \<and> 0 < v_dot v v \<and> (0 \<le> t \<or> 0 < v_dot v p)"
proof -
  define a where "a = v_dot v v"
  define b where "b = v_dot v p * 2"
  define c where "c = v_dot p p - r * r"
  define d where "d = b * b - 4 * a * c"
  have a0: "0 \<le> a" unfolding a_def by (rule v_dot_self_nonneg)
  have sol: "v_sol p v r =
     (if d < 0 then Some LARGE
      else if d > 0 then
        (let t0 = 0.5 * (- b - sqrt d) / a; t1 = 0.5 * (- b + sqrt d) / a;
             t = (if t0 < t1 then t0 else t1)
         in if t < 0 then Some LARGE else Some t)
      else if a = 0 then None else Some (- b * 0.5 / a))"
    unfolding v_sol_def a_def b_def c_def d_def Let_def ..
  have d0: "0 \<le> d"
    using assms unfolding sol by (auto split: if_splits)
  have ap: "0 < a"
  proof (rule ccontr)
    assume "\<not> 0 < a"
    with a0 have z: "a = 0" by simp
    then have "b = 0" unfolding a_def b_def by (simp add: v_dot_self_zero)
    with z have "d = 0" by (simp add: d_def)
    with z assms(1) show False unfolding sol by simp
  qed
  define s where "s = (if d = 0 then 0 else sqrt d)"
  have ss: "s * s = d" and s0: "0 \<le> s" using d0 by (simp_all add: s_def)
  have t: "t = (- b - s) / (2 * a)"
  proof (cases "d = 0")
    case True
    with assms(1) ap show ?thesis unfolding sol by (simp add: s_def)
  next
    case False
    with d0 have dp: "d > 0" by simp
    then have "0.5 * (- b - sqrt d) / a < 0.5 * (- b + sqrt d) / a"
      using ap by (simp add: divide_strict_right_mono)
    with assms dp False show ?thesis
      unfolding sol Let_def by (simp add: s_def field_simps split: if_splits)
  qed
  have "4 * a * (a * ((- b - s) / (2 * a)) * ((- b - s) / (2 * a)) + b * ((- b - s) / (2 * a)) + c)
      = (b + s) * (b + s) - 2 * b * (b + s) + 4 * a * c"
    using ap by (simp add: field_simps)
  also have "\<dots> = s * s - b * b + 4 * a * c" by (simp add: algebra_simps)
  also have "\<dots> = 0" unfolding ss by (simp add: d_def)
  finally have root: "a * t * t + b * t + c = 0" using ap unfolding t by simp
  have sign: "0 \<le> t \<or> 0 < v_dot v p"
  proof (cases "d = 0")
    case True
    then have tb: "t = - b / (2 * a)" using t by (simp add: s_def)
    show ?thesis
    proof (cases "0 < v_dot v p")
      case True
      then show ?thesis by simp
    next
      case False
      then have "0 \<le> - b" by (simp add: b_def)
      with ap have "0 \<le> - b / (2 * a)" by (intro divide_nonneg_pos) simp_all
      with tb show ?thesis by simp
    qed
  next
    case False
    with d0 have dp: "d > 0" by simp
    then have "0.5 * (- b - sqrt d) / a < 0.5 * (- b + sqrt d) / a"
      using ap by (simp add: divide_strict_right_mono)
    with assms dp show ?thesis
      unfolding sol Let_def by (simp split: if_splits)
  qed
  from root ap sign show ?thesis unfolding a_def b_def c_def by simp
qed

lemma sphere_expand:
  "v_dot (v_mad P V t) (v_mad P V t) = v_dot V V * t * t + v_dot V P * 2 * t + v_dot P P"
  by (cases P; cases V) (simp add: algebra_simps)

lemma vert_rel:
  "v_mad (v_sub p (v_add oo q)) (v_sub v (0, 0, 0)) t = v_sub (v_sub (v_mad p v t) oo) q"
  by (cases p; cases oo; cases q; cases v) simp

lemma vert_no_hit:
  assumes aw: "away up oo n d t0" and unit: "v_dot n n = 1" and r: "0 \<le> ball_r up"
    and t0: "t0 \<le> LARGE" and front: "d \<le> v_dot q n"
  shows "\<not> flt (fst (v_vert Q oo q (0, 0, 0) (ball_p up) (ball_v up) (ball_r up))) t0"
proof
  let ?P = "v_sub (ball_p up) (v_add oo q)" and ?V = "v_sub (ball_v up) (0, 0, 0)"
  assume hit: "flt (fst (v_vert Q oo q (0, 0, 0) (ball_p up) (ball_v up) (ball_r up))) t0"
  have pv: "v_dot ?P ?V < 0"
  proof (rule ccontr)
    assume "\<not> v_dot ?P ?V < 0"
    with hit t0 show False by (simp add: v_vert_def Let_def)
  qed
  from hit pv obtain t where sol: "v_sol ?P ?V (ball_r up) = Some t" and lt: "t < t0"
    by (cases "v_sol ?P ?V (ball_r up)") (auto simp: v_vert_def Let_def split: if_splits)
  from lt t0 have "t \<noteq> LARGE" by simp
  from v_sol_root [OF sol this] pv
  have root: "v_dot ?V ?V * t * t + v_dot ?V ?P * 2 * t + (v_dot ?P ?P - ball_r up * ball_r up) = 0"
    and nn: "0 \<le> t"
    by (simp_all add: v_dot_commute [of ?V ?P])
  have "v_dot (v_mad ?P ?V t) (v_mad ?P ?V t) = ball_r up * ball_r up"
    using root unfolding sphere_expand by linarith
  then have near: "v_dot (v_sub (v_sub (v_mad (ball_p up) (ball_v up) t) oo) q)
      (v_sub (v_sub (v_mad (ball_p up) (ball_v up) t) oo) q) \<le> ball_r up * ball_r up"
    unfolding vert_rel by simp
  from lt have "t \<le> t0" by simp
  from touch_not_away [OF aw nn this unit r front near] show False .
qed

lemma edge_rel:
  "v_mad (v_mad (v_sub (v_sub p oo) q) u (- du / uu)) (v_mad (v_sub v (0, 0, 0)) u (- eu / uu)) t
     = v_sub (v_sub (v_mad p v t) oo) (v_mad q u ((du + eu * t) / uu))"
  by (cases p; cases oo; cases q; cases u; cases v) (simp add: algebra_simps add_divide_distrib)

lemma segment_front:
  assumes "d \<le> v_dot q n" and "d \<le> v_dot (v_add q u) n" and "0 < s" and "s < 1"
  shows "d \<le> v_dot (v_mad q u s) n"
proof -
  let ?A = "v_dot q n" and ?B = "v_dot u n"
  from assms(2) have b: "d \<le> ?A + ?B" by (simp add: v_dot_add_left)
  have "0 \<le> (1 - s) * (?A - d)" using assms(1,4) by (intro mult_nonneg_nonneg) simp_all
  moreover have "0 \<le> s * (?A + ?B - d)" using b assms(3) by (intro mult_nonneg_nonneg) simp_all
  ultimately have "0 \<le> (1 - s) * (?A - d) + s * (?A + ?B - d)" by simp
  also have "\<dots> = ?A + s * ?B - d" by (simp add: algebra_simps)
  finally show ?thesis by (simp add: v_dot_mad_left)
qed

lemma edge_no_hit:
  assumes aw: "away up oo n d t0" and unit: "v_dot n n = 1" and r: "0 \<le> ball_r up"
    and t0: "t0 \<le> LARGE" and fi: "d \<le> v_dot q n" and fj: "d \<le> v_dot (v_add q u) n"
  shows "\<not> fst (v_edge Q oo q u (0, 0, 0) (ball_p up) (ball_v up) (ball_r up)) < t0"
proof
  let ?d = "v_sub (v_sub (ball_p up) oo) q" and ?e = "v_sub (ball_v up) (0, 0, 0)"
  let ?du = "v_dot ?d u" and ?eu = "v_dot ?e u" and ?uu = "v_dot u u"
  let ?P = "v_mad ?d u (- ?du / ?uu)" and ?V = "v_mad ?e u (- ?eu / ?uu)"
  assume hit: "fst (v_edge Q oo q u (0, 0, 0) (ball_p up) (ball_v up) (ball_r up)) < t0"
  have uu: "?uu \<noteq> 0"
  proof
    assume "?uu = 0"
    with hit t0 show False by (simp add: v_edge_def Let_def)
  qed
  obtain t where sol: "v_sol ?P ?V (ball_r up) = Some t"
  proof (cases "v_sol ?P ?V (ball_r up)")
    case None
    with hit t0 uu have False by (simp add: v_edge_def Let_def)
    then show ?thesis ..
  next
    case (Some t)
    then show ?thesis by (rule that)
  qed
  let ?s = "(?du + ?eu * t) / ?uu"
  have c: "0 \<le> t \<and> t < LARGE \<and> 0 < ?s \<and> ?s < 1"
  proof (rule ccontr)
    assume "\<not> (0 \<le> t \<and> t < LARGE \<and> 0 < ?s \<and> ?s < 1)"
    then have "fst (v_edge Q oo q u (0, 0, 0) (ball_p up) (ball_v up) (ball_r up)) = LARGE"
      using uu sol by (simp add: v_edge_def Let_def)
    with hit t0 show False by simp
  qed
  then have res: "fst (v_edge Q oo q u (0, 0, 0) (ball_p up) (ball_v up) (ball_r up)) = t"
    using uu sol by (simp add: v_edge_def Let_def)
  with hit have lt: "t \<le> t0" by simp
  from c have "t \<noteq> LARGE" by simp
  from v_sol_root [OF sol this]
  have "v_dot (v_mad ?P ?V t) (v_mad ?P ?V t) = ball_r up * ball_r up"
    unfolding sphere_expand by linarith
  then have near: "v_dot (v_sub (v_sub (v_mad (ball_p up) (ball_v up) t) oo) (v_mad q u ?s))
      (v_sub (v_sub (v_mad (ball_p up) (ball_v up) t) oo) (v_mad q u ?s)) \<le> ball_r up * ball_r up"
    unfolding edge_rel by simp
  have front: "d \<le> v_dot (v_mad q u ?s) n"
    using fi fj c by (intro segment_front) simp_all
  from c have "0 \<le> t" by simp
  from touch_not_away [OF aw this lt unit r front near] show False .
qed

lemma v_side_hit:
  assumes v: "v_side T oo (0, 0, 0) ns ds p v r = (Some t, Q)" and lt: "t < LARGE"
    and r: "0 \<le> r" and unit: "v_dot ns ns = 1"
  shows "0 \<le> t \<and> Q = v_mad (v_mad p v t) ns (- r) \<and> v_dot (v_sub Q oo) ns \<le> ds"
proof -
  let ?vn = "v_dot v ns" and ?on = "v_dot oo ns" and ?pn = "v_dot p ns"
  let ?u = "(r + ds + ?on - ?pn) / ?vn" and ?a = "(ds + ?on - ?pn) / ?vn"
  have w0: "v_dot (0, 0, 0) ns = 0" by (cases ns) simp
  have neg: "?vn < 0"
  proof (rule ccontr)
    assume "\<not> ?vn < 0"
    then consider "?vn > 0" | "?vn = 0" by linarith
    then show False
    proof cases
      case 1
      with v lt show False by (simp add: v_side_def Let_def w0)
    next
      case 2
      with v lt r show False by (simp add: v_side_def Let_def w0 split: if_splits)
    qed
  qed
  have q: "v_dot (v_sub (v_mad (v_mad p v x) ns (- r)) oo) ns = ?pn + x * ?vn - r - ?on" for x
    by (simp add: v_dot_sub_left v_dot_mad_left unit)
  have form: "v_side T oo (0, 0, 0) ns ds p v r =
      (if 0 \<le> ?u then (Some ?u, v_mad (v_mad p v ?u) ns (- r))
       else if 0 \<le> ?a then (Some 0, v_mad (v_mad p v 0) ns (- r))
       else (Some LARGE, T))"
    using neg by (simp add: v_side_def Let_def w0)
  show ?thesis
  proof (cases "0 \<le> ?u")
    case True
    with v have t: "t = ?u" and Q: "Q = v_mad (v_mad p v ?u) ns (- r)"
      unfolding form by auto
    have "?u * ?vn = r + ds + ?on - ?pn" using neg by simp
    then have "v_dot (v_sub Q oo) ns = ds" unfolding Q q by simp
    with True show ?thesis unfolding t Q by simp
  next
    case False
    have a: "0 \<le> ?a"
    proof (rule ccontr)
      assume "\<not> 0 \<le> ?a"
      with False v lt show False unfolding form by simp
    qed
    with False v have t: "t = 0" and Q: "Q = v_mad (v_mad p v 0) ns (- r)"
      unfolding form by auto
    from False neg have "0 < r + ds + ?on - ?pn"
      by (simp add: divide_less_0_iff not_le)
    then have "v_dot (v_sub Q oo) ns \<le> ds" unfolding Q q by simp
    then show ?thesis unfolding t Q by simp
  qed
qed

lemma v_dot_scl_both: "v_dot (v_scl a t) (v_scl a t) = t * t * v_dot a a"
  by (cases a) (simp add: algebra_simps)

lemma side_rel:
  "v_sub (v_sub (v_mad p v t) oo) (v_sub (v_mad (v_mad p v t) ns (- r)) oo) = v_scl ns r"
  by (cases p; cases v; cases oo; cases ns) simp

lemma side_no_hit:
  assumes aw: "away up oo n d t0" and unit: "v_dot n n = 1" and r: "0 \<le> ball_r up"
    and t0: "t0 \<le> LARGE"
    and su: "v_dot (side_n (rd (sv fp) si)) (side_n (rd (sv fp) si)) = 1"
    and region: "\<And>x. (\<And>i. i < nat (lump_sc lp) \<Longrightarrow>
           v_dot x (side_n (rd (sv fp) (rd (iv fp) (lump_s0 lp + int i))))
             \<le> side_d (rd (sv fp) (rd (iv fp) (lump_s0 lp + int i)))) \<Longrightarrow> d \<le> v_dot x n"
  shows "\<not> flt (fst (sol_test_side t0 T up fp lp si oo (0, 0, 0))) t0"
proof
  let ?sp = "rd (sv fp) si"
  let ?vs = "v_side T oo (0, 0, 0) (side_n ?sp) (side_d ?sp) (ball_p up) (ball_v up) (ball_r up)"
  assume hit: "flt (fst (sol_test_side t0 T up fp lp si oo (0, 0, 0))) t0"
  obtain tq Q where vs: "?vs = (tq, Q)" by (cases ?vs)
  have f: "flt tq t0"
  proof (rule ccontr)
    assume "\<not> flt tq t0"
    with hit vs show False by (simp add: sol_test_side_def Let_def)
  qed
  then obtain t where tq: "tq = Some t" and lt: "t < t0" by (cases tq) simp_all
  have ns: "\<not> side_scan fp lp si Q oo (0, 0, 0) t [0 ..< nat (lump_sc lp)]"
  proof
    assume "side_scan fp lp si Q oo (0, 0, 0) t [0 ..< nat (lump_sc lp)]"
    with hit vs tq lt t0 show False by (simp add: sol_test_side_def Let_def)
  qed
  from lt t0 have "t < LARGE" by simp
  note h = v_side_hit [OF vs [unfolded tq] this r su]
  from h have nn: "0 \<le> t" by (rule conjunct1)
  from h have Q: "Q = v_mad (v_mad (ball_p up) (ball_v up) t) (side_n ?sp) (- ball_r up)"
    by (rule conjunct1 [OF conjunct2])
  from h have own: "v_dot (v_sub Q oo) (side_n ?sp) \<le> side_d ?sp"
    by (rule conjunct2 [OF conjunct2])
  have front: "d \<le> v_dot (v_sub Q oo) n"
  proof (rule region)
    fix i
    assume i: "i < nat (lump_sc lp)"
    let ?sqi = "rd (iv fp) (lump_s0 lp + int i)"
    show "v_dot (v_sub Q oo) (side_n (rd (sv fp) ?sqi)) \<le> side_d (rd (sv fp) ?sqi)"
    proof (cases "?sqi = si")
      case True
      with own show ?thesis by simp
    next
      case False
      from ns i have "\<not> outside_side fp lp si Q oo (0, 0, 0) t i"
        unfolding side_scan_iff by simp
      with False show ?thesis
        by (cases "side_n (rd (sv fp) ?sqi)")
           (simp add: outside_side_def Let_def v_dot_sub_left)
    qed
  qed
  have "v_dot (v_scl (side_n ?sp) (ball_r up)) (v_scl (side_n ?sp) (ball_r up))
      = ball_r up * ball_r up"
    using su by (simp add: v_dot_scl_both)
  then have near: "v_dot (v_sub (v_sub (v_mad (ball_p up) (ball_v up) t) oo) (v_sub Q oo))
      (v_sub (v_sub (v_mad (ball_p up) (ball_v up) t) oo) (v_sub Q oo)) \<le> ball_r up * ball_r up"
    unfolding Q side_rel by simp
  from lt have "t \<le> t0" by simp
  from touch_not_away [OF aw nn this unit r front near] show False .
qed

lemma keep_min_same: "\<not> flt (fst uU) t \<Longrightarrow> keep_min (t, T) uU = (t, T, snd uU)"
  by (simp add: keep_min_def)

lemma keep_min_le: "fst (keep_min (t, T) (fin uU)) \<le> t"
  by (simp add: keep_min_def fin_def)

lemma fold_same:
  assumes "\<And>U i. i \<in> set xs \<Longrightarrow> fst (f (t, T, U) i) = t \<and> fst (snd (f (t, T, U) i)) = T"
  shows "fst (foldl f (t, T, U) xs) = t \<and> fst (snd (foldl f (t, T, U) xs)) = T"
  using assms
proof (induction xs arbitrary: U)
  case Nil
  show ?case by simp
next
  case (Cons x xs)
  from Cons.prems [of x U] have "fst (f (t, T, U) x) = t" "fst (snd (f (t, T, U) x)) = T"
    by simp_all
  then have 1: "f (t, T, U) x = (t, T, snd (snd (f (t, T, U) x)))"
    by (metis prod.collapse)
  have "fst (foldl f (t, T, snd (snd (f (t, T, U) x))) xs) = t
      \<and> fst (snd (foldl f (t, T, snd (snd (f (t, T, U) x))) xs)) = T"
    by (rule Cons.IH) (rule Cons.prems, simp)
  then show ?case by (simp add: 1 [symmetric])
qed

lemma lump_no_hit:
  assumes lb: "lump_beyond fp lp n d" and aw: "away up oo n d t0" and unit: "v_dot n n = 1"
    and r: "0 \<le> ball_r up" and t0: "t0 \<le> LARGE"
  shows "sol_test_lump t0 T up fp lp oo (0, 0, 0) = (t0, T)"
proof (cases "and (lump_fl lp) L_DETAIL \<noteq> 0")
  case True
  then show ?thesis by (simp add: sol_test_lump_def)
next
  case False
  let ?P = "\<lambda>st. fst st = t0 \<and> fst (snd st) = T"
  have v: "?P (lump_vert_step up fp lp oo (0, 0, 0) (t0, T, U) i)"
    if "i \<in> set [0 ..< nat (lump_vc lp)]" for U i
  proof -
    from that lb have "d \<le> v_dot (vert_p (rd (vv fp) (rd (iv fp) (lump_v0 lp + int i)))) n"
      by (simp add: lump_beyond_def)
    from vert_no_hit [OF aw unit r t0 this] show ?thesis
      by (simp add: lump_vert_step_def sol_test_vert_def Let_def keep_min_same)
  qed
  have e: "?P (lump_edge_step up fp lp oo (0, 0, 0) (t0, T, U) i)"
    if "i \<in> set [0 ..< nat (lump_ec lp)]" for U i
  proof -
    let ?ep = "rd (ev fp) (rd (iv fp) (lump_e0 lp + int i))"
    let ?q = "vert_p (rd (vv fp) (edge_vi ?ep))" and ?q' = "vert_p (rd (vv fp) (edge_vj ?ep))"
    from that lb have fi: "d \<le> v_dot ?q n" and "d \<le> v_dot ?q' n"
      by (simp_all add: lump_beyond_def)
    moreover have "v_add ?q (v_sub ?q' ?q) = ?q'" by (cases ?q; cases ?q') simp
    ultimately have fj: "d \<le> v_dot (v_add ?q (v_sub ?q' ?q)) n" by simp
    from edge_no_hit [OF aw unit r t0 fi fj] show ?thesis
      by (simp add: lump_edge_step_def sol_test_edge_def Let_def keep_min_same fin_def)
  qed
  have s: "?P (lump_side_step up fp lp oo (0, 0, 0) (t0, T, U) i)"
    if "i \<in> set [0 ..< nat (lump_sc lp)]" for U i
  proof -
    let ?si = "rd (iv fp) (lump_s0 lp + int i)"
    from that lb have su: "v_dot (side_n (rd (sv fp) ?si)) (side_n (rd (sv fp) ?si)) = 1"
      by (simp add: lump_beyond_def)
    have reg: "d \<le> v_dot x n"
      if "\<And>i. i < nat (lump_sc lp) \<Longrightarrow>
           v_dot x (side_n (rd (sv fp) (rd (iv fp) (lump_s0 lp + int i))))
             \<le> side_d (rd (sv fp) (rd (iv fp) (lump_s0 lp + int i)))" for x
      using lb that unfolding lump_beyond_def by blast
    have "\<not> flt (fst (sol_test_side t0 U up fp lp ?si oo (0, 0, 0))) t0"
      by (rule side_no_hit [OF aw unit r t0 su]) (rule reg)
    then show ?thesis
      by (simp add: lump_side_step_def Let_def keep_min_same)
  qed
  define st1 where "st1 = (if ball_r up > 0
      then foldl (lump_vert_step up fp lp oo (0, 0, 0)) (t0, T, v_zero) [0 ..< nat (lump_vc lp)]
      else (t0, T, v_zero))"
  have 1: "?P st1"
    unfolding st1_def using fold_same [of "[0 ..< nat (lump_vc lp)]"
        "lump_vert_step up fp lp oo (0, 0, 0)" t0 T v_zero, OF v]
    by (cases "ball_r up > 0") simp_all
  then have c1: "st1 = (t0, T, snd (snd st1))" by (metis prod.collapse)
  define st2 where "st2 = (if ball_r up > 0
      then foldl (lump_edge_step up fp lp oo (0, 0, 0)) st1 [0 ..< nat (lump_ec lp)]
      else st1)"
  have 2: "?P st2"
    unfolding st2_def using 1 fold_same [of "[0 ..< nat (lump_ec lp)]"
        "lump_edge_step up fp lp oo (0, 0, 0)" t0 T "snd (snd st1)", OF e, folded c1]
    by (cases "ball_r up > 0") simp_all
  then have c2: "st2 = (t0, T, snd (snd st2))" by (metis prod.collapse)
  define st3 where "st3 = foldl (lump_side_step up fp lp oo (0, 0, 0)) st2 [0 ..< nat (lump_sc lp)]"
  have 3: "?P st3"
    unfolding st3_def using fold_same [of "[0 ..< nat (lump_sc lp)]"
        "lump_side_step up fp lp oo (0, 0, 0)" t0 T "snd (snd st2)", OF s, folded c2]
    by simp
  have "sol_test_lump t0 T up fp lp oo (0, 0, 0) = (fst st3, fst (snd st3))"
    using False unfolding sol_test_lump_def Let_def st3_def st2_def st1_def by simp
  with 3 show ?thesis by simp
qed

lemma node_brute_Suc:
  "node_brute (Suc k) dt T up fp ni oo w =
     (let np = rd (nv fp) ni;
          st = foldl (node_lump_step up fp np oo w) (dt, T, v_zero) [0 ..< nat (node_lc np)]
      in case (if node_ni np \<ge> 0
               then (case node_brute k (fst st) (snd (snd st)) up fp (node_ni np) oo w of
                       None \<Rightarrow> None
                     | Some uU \<Rightarrow> Some (keep_min (fst st, fst (snd st)) (fin uU)))
               else Some st) of
           None \<Rightarrow> None
         | Some st \<Rightarrow>
             (case (if node_nj np \<ge> 0
                    then (case node_brute k (fst st) (snd (snd st)) up fp (node_nj np) oo w of
                            None \<Rightarrow> None
                          | Some uU \<Rightarrow> Some (keep_min (fst st, fst (snd st)) (fin uU)))
                    else Some st) of
                None \<Rightarrow> None
              | Some st \<Rightarrow> Some (fst st, fst (snd st))))"
  by (rule node_brute.simps)

lemma bind_SomeD:
  assumes "(case A of None \<Rightarrow> None | Some st \<Rightarrow> B st) = Some r"
  obtains a where "A = Some a" and "B a = Some r"
  using assms by (cases A) simp_all

lemma brute_child_same:
  assumes "(if c then (case nb of None \<Rightarrow> None
                       | Some uU \<Rightarrow> Some (keep_min (fst st, fst (snd st)) (fin uU)))
            else Some st) = Some st'"
    and "c \<Longrightarrow> \<forall>uU. nb = Some uU \<longrightarrow> uU = (fst st, snd (snd st))"
  shows "st' = st"
proof (cases c)
  case False
  with assms(1) show ?thesis by simp
next
  case True
  with assms(1) obtain uU where nb: "nb = Some uU"
    and st': "st' = keep_min (fst st, fst (snd st)) (fin uU)"
    by (cases nb) simp_all
  from assms(2) [OF True] nb have "uU = (fst st, snd (snd st))" by simp
  then show ?thesis unfolding st' by (simp add: keep_min_def fin_def)
qed

lemma sub_no_hit:
  assumes aw: "away up oo n d t0" and unit: "v_dot n n = 1" and r: "0 \<le> ball_r up"
    and t0: "t0 \<le> LARGE"
  shows "sub_beyond fp n d k ni \<Longrightarrow> node_brute k t0 T up fp ni oo (0, 0, 0) = Some res
    \<Longrightarrow> res = (t0, T)"
proof (induction k arbitrary: ni T res)
  case 0
  then show ?case by simp
next
  case (Suc k)
  let ?np = "rd (nv fp) ni"
  let ?st = "foldl (node_lump_step up fp ?np oo (0, 0, 0)) (t0, T, v_zero) [0 ..< nat (node_lc ?np)]"
  have "fst (node_lump_step up fp ?np oo (0, 0, 0) (t0, T, U) i) = t0
      \<and> fst (snd (node_lump_step up fp ?np oo (0, 0, 0) (t0, T, U) i)) = T"
    if "i \<in> set [0 ..< nat (node_lc ?np)]" for U i
  proof -
    from that Suc.prems(1) have "lump_beyond fp (rd (lv fp) (node_l0 ?np + int i)) n d" by simp
    from lump_no_hit [OF this aw unit r t0] show ?thesis
      by (simp add: node_lump_step_def Let_def keep_min_def fin_def)
  qed
  then have "fst ?st = t0 \<and> fst (snd ?st) = T" by (rule fold_same)
  then have st: "?st = (t0, T, snd (snd ?st))" by (metis prod.collapse)
  from Suc.prems(2) obtain st1 st2 where
    1: "(if node_ni ?np \<ge> 0
         then (case node_brute k (fst ?st) (snd (snd ?st)) up fp (node_ni ?np) oo (0, 0, 0) of
                 None \<Rightarrow> None
               | Some uU \<Rightarrow> Some (keep_min (fst ?st, fst (snd ?st)) (fin uU)))
         else Some ?st) = Some st1"
    and 2: "(if node_nj ?np \<ge> 0
         then (case node_brute k (fst st1) (snd (snd st1)) up fp (node_nj ?np) oo (0, 0, 0) of
                 None \<Rightarrow> None
               | Some uU \<Rightarrow> Some (keep_min (fst st1, fst (snd st1)) (fin uU)))
         else Some st1) = Some st2"
    and res: "res = (fst st2, fst (snd st2))"
    unfolding node_brute_Suc Let_def
    by (elim bind_SomeD) (simp del: node_brute.simps)
  have e1: "st1 = ?st"
  proof (rule brute_child_same [OF 1])
    assume "node_ni ?np \<ge> 0"
    with Suc.prems(1) have sb: "sub_beyond fp n d k (node_ni ?np)" by simp
    show "\<forall>uU. node_brute k (fst ?st) (snd (snd ?st)) up fp (node_ni ?np) oo (0, 0, 0) = Some uU
        \<longrightarrow> uU = (fst ?st, snd (snd ?st))"
    proof (intro allI impI)
      fix uU
      assume "node_brute k (fst ?st) (snd (snd ?st)) up fp (node_ni ?np) oo (0, 0, 0) = Some uU"
      then have "node_brute k t0 (snd (snd ?st)) up fp (node_ni ?np) oo (0, 0, 0) = Some uU"
        using st by (metis fst_conv)
      from Suc.IH [OF sb this] show "uU = (fst ?st, snd (snd ?st))"
        using st by (metis fst_conv)
    qed
  qed
  have e2: "st2 = st1"
  proof (rule brute_child_same [OF 2])
    assume "node_nj ?np \<ge> 0"
    with Suc.prems(1) have sb: "sub_beyond fp n d k (node_nj ?np)" by simp
    show "\<forall>uU. node_brute k (fst st1) (snd (snd st1)) up fp (node_nj ?np) oo (0, 0, 0) = Some uU
        \<longrightarrow> uU = (fst st1, snd (snd st1))"
    proof (intro allI impI)
      fix uU
      assume "node_brute k (fst st1) (snd (snd st1)) up fp (node_nj ?np) oo (0, 0, 0) = Some uU"
      then have "node_brute k t0 (snd (snd st1)) up fp (node_nj ?np) oo (0, 0, 0) = Some uU"
        using st e1 by (metis fst_conv)
      from Suc.IH [OF sb this] show "uU = (fst st1, snd (snd st1))"
        using st e1 by (metis fst_conv)
    qed
  qed
  from res e1 e2 st show ?case by (metis fst_conv snd_conv)
qed

lemma fold_lump_le:
  "fst (foldl (node_lump_step up fp np oo w) st xs) \<le> fst st"
proof (induction xs arbitrary: st)
  case Nil
  show ?case by simp
next
  case (Cons x xs)
  obtain t T U where st: "st = (t, T, U)" by (cases st)
  have "fst (node_lump_step up fp np oo w st x) \<le> fst st"
    unfolding st by (simp add: node_lump_step_def Let_def keep_min_le)
  with Cons.IH [of "node_lump_step up fp np oo w st x"] show ?case by simp
qed

lemma child_le:
  assumes "(if c then (case nb of None \<Rightarrow> None
                       | Some uU \<Rightarrow> Some (keep_min (fst st, fst (snd st)) (fin uU)))
            else Some st) = Some st'"
  shows "fst st' \<le> fst st"
proof (cases c)
  case False
  with assms show ?thesis by simp
next
  case True
  with assms obtain uU where "st' = keep_min (fst st, fst (snd st)) (fin uU)"
    by (cases nb) auto
  then show ?thesis by (simp add: keep_min_le)
qed

lemma prune_child:
  assumes b: "(if c then (case nb of None \<Rightarrow> None
                       | Some uU \<Rightarrow> Some (keep_min (fst st, fst (snd st)) (fin uU)))
            else Some st) = Some st'"
    and pass: "c \<Longrightarrow> pass \<Longrightarrow> \<forall>uU. nb = Some uU \<longrightarrow> np = Some uU"
    and skip: "c \<Longrightarrow> \<not> pass \<Longrightarrow> \<forall>uU. nb = Some uU \<longrightarrow> uU = (fst st, snd (snd st))"
  shows "(if c \<and> pass then (case np of None \<Rightarrow> None
                       | Some uU \<Rightarrow> Some (keep_min (fst st, fst (snd st)) (fin uU)))
            else Some st) = Some st'"
proof (cases c)
  case False
  with b show ?thesis by simp
next
  case c: True
  show ?thesis
  proof (cases pass)
    case True
    from b c obtain uU where nb: "nb = Some uU"
      and st': "st' = keep_min (fst st, fst (snd st)) (fin uU)"
      by (cases nb) simp_all
    from pass [OF c True] nb have "np = Some uU" by simp
    with c True st' show ?thesis by simp
  next
    case False
    have "st' = st" by (rule brute_child_same [OF b]) (rule skip [OF _ False])
    with False show ?thesis by simp
  qed
qed

lemma v_neg_unit: "v_dot (v_neg n) (v_neg n) = v_dot n n"
  by (cases n) (simp add: v_neg_def)

lemma prune_safe:
  assumes r: "0 \<le> ball_r up"
  shows "bsp_ok fp k ni \<Longrightarrow> dt \<le> LARGE
    \<Longrightarrow> node_brute k dt T up fp ni oo (0, 0, 0) = Some res
    \<Longrightarrow> sol_test_node k dt T up fp ni oo (0, 0, 0) = Some res"
proof (induction k arbitrary: ni dt T res)
  case 0
  then show ?case by simp
next
  case (Suc k)
  let ?np = "rd (nv fp) ni"
  let ?sp = "rd (sv fp) (node_si ?np)"
  let ?st = "foldl (node_lump_step up fp ?np oo (0, 0, 0)) (dt, T, v_zero) [0 ..< nat (node_lc ?np)]"
  from Suc.prems(3) obtain st1 st2 where
    1: "(if node_ni ?np \<ge> 0
         then (case node_brute k (fst ?st) (snd (snd ?st)) up fp (node_ni ?np) oo (0, 0, 0) of
                 None \<Rightarrow> None
               | Some uU \<Rightarrow> Some (keep_min (fst ?st, fst (snd ?st)) (fin uU)))
         else Some ?st) = Some st1"
    and 2: "(if node_nj ?np \<ge> 0
         then (case node_brute k (fst st1) (snd (snd st1)) up fp (node_nj ?np) oo (0, 0, 0) of
                 None \<Rightarrow> None
               | Some uU \<Rightarrow> Some (keep_min (fst st1, fst (snd st1)) (fin uU)))
         else Some st1) = Some st2"
    and res: "res = (fst st2, fst (snd st2))"
    unfolding node_brute_Suc Let_def
    by (elim bind_SomeD) (simp del: node_brute.simps)
  have "fst ?st \<le> fst (dt, T, v_zero)" by (rule fold_lump_le)
  with Suc.prems(2) have le0: "fst ?st \<le> LARGE" by simp
  from child_le [OF 1] le0 have le1: "fst st1 \<le> LARGE" by simp
  have p1: "(if node_ni ?np \<ge> 0 \<and> sol_test_fore (fst ?st) up ?sp oo (0, 0, 0)
         then (case sol_test_node k (fst ?st) (snd (snd ?st)) up fp (node_ni ?np) oo (0, 0, 0) of
                 None \<Rightarrow> None
               | Some uU \<Rightarrow> Some (keep_min (fst ?st, fst (snd ?st)) (fin uU)))
         else Some ?st) = Some st1"
  proof (rule prune_child [OF 1])
    assume c: "node_ni ?np \<ge> 0"
    with Suc.prems(1) have ok: "bsp_ok fp k (node_ni ?np)" by simp
    show "\<forall>uU. node_brute k (fst ?st) (snd (snd ?st)) up fp (node_ni ?np) oo (0, 0, 0) = Some uU
        \<longrightarrow> sol_test_node k (fst ?st) (snd (snd ?st)) up fp (node_ni ?np) oo (0, 0, 0) = Some uU"
      using Suc.IH [OF ok le0] by blast
  next
    assume c: "node_ni ?np \<ge> 0" and "\<not> sol_test_fore (fst ?st) up ?sp oo (0, 0, 0)"
    then have aw: "away up oo (side_n ?sp) (side_d ?sp) (fst ?st)"
      by (simp add: sol_test_fore_away)
    from c Suc.prems(1) have unit: "v_dot (side_n ?sp) (side_n ?sp) = 1"
      and sb: "sub_beyond fp (side_n ?sp) (side_d ?sp) k (node_ni ?np)" by simp_all
    show "\<forall>uU. node_brute k (fst ?st) (snd (snd ?st)) up fp (node_ni ?np) oo (0, 0, 0) = Some uU
        \<longrightarrow> uU = (fst ?st, snd (snd ?st))"
      using sub_no_hit [OF aw unit r le0 sb] by blast
  qed
  have p2: "(if node_nj ?np \<ge> 0 \<and> sol_test_back (fst st1) up ?sp oo (0, 0, 0)
         then (case sol_test_node k (fst st1) (snd (snd st1)) up fp (node_nj ?np) oo (0, 0, 0) of
                 None \<Rightarrow> None
               | Some uU \<Rightarrow> Some (keep_min (fst st1, fst (snd st1)) (fin uU)))
         else Some st1) = Some st2"
  proof (rule prune_child [OF 2])
    assume c: "node_nj ?np \<ge> 0"
    with Suc.prems(1) have ok: "bsp_ok fp k (node_nj ?np)" by simp
    show "\<forall>uU. node_brute k (fst st1) (snd (snd st1)) up fp (node_nj ?np) oo (0, 0, 0) = Some uU
        \<longrightarrow> sol_test_node k (fst st1) (snd (snd st1)) up fp (node_nj ?np) oo (0, 0, 0) = Some uU"
      using Suc.IH [OF ok le1] by blast
  next
    assume c: "node_nj ?np \<ge> 0" and "\<not> sol_test_back (fst st1) up ?sp oo (0, 0, 0)"
    then have aw: "away up oo (v_neg (side_n ?sp)) (- side_d ?sp) (fst st1)"
      by (simp add: sol_test_back_away)
    from c Suc.prems(1) have "v_dot (side_n ?sp) (side_n ?sp) = 1"
      and sb: "sub_beyond fp (v_neg (side_n ?sp)) (- side_d ?sp) k (node_nj ?np)" by simp_all
    then have unit: "v_dot (v_neg (side_n ?sp)) (v_neg (side_n ?sp)) = 1"
      by (simp add: v_neg_unit)
    show "\<forall>uU. node_brute k (fst st1) (snd (snd st1)) up fp (node_nj ?np) oo (0, 0, 0) = Some uU
        \<longrightarrow> uU = (fst st1, snd (snd st1))"
      using sub_no_hit [OF aw unit r le1 sb] by blast
  qed
  show ?case
    unfolding sol_test_node.simps Let_def p1 option.case p2 res ..
qed

lemma node_brute_returns:
  "node_ok fp d ni \<Longrightarrow> \<exists>r. node_brute d dt T up fp ni oo w = Some r"
proof (induction d arbitrary: dt T ni)
  case 0
  then show ?case by simp
next
  case (Suc d)
  let ?np = "rd (nv fp) ni"
  from Suc.prems have oks:
    "node_ni ?np \<ge> 0 \<Longrightarrow> node_ok fp d (node_ni ?np)"
    "node_nj ?np \<ge> 0 \<Longrightarrow> node_ok fp d (node_nj ?np)"
    by (simp_all split: if_splits)
  have f: "\<exists>r. node_brute d dt' T' up fp (node_ni ?np) oo w = Some r"
    if "node_ni ?np \<ge> 0" for dt' T'
    using that oks(1) by (intro Suc.IH) simp
  have b: "\<exists>r. node_brute d dt' T' up fp (node_nj ?np) oo w = Some r"
    if "node_nj ?np \<ge> 0" for dt' T'
    using that oks(2) by (intro Suc.IH) simp
  show ?case
    unfolding node_brute_Suc Let_def
    apply (rule bind_returns)
     apply (rule child_returns)
     apply (erule f)
    apply (rule bind_returns)
     apply (rule child_returns)
     apply (erule b)
    apply (rule exI)
    apply (rule refl)
    done
qed

text \<open>
  Where the body frame is at rest the pruning hides nothing. For a node tree that is
  geometrically consistent and of depth at most \<open>k\<close>, a ball radius that is not negative
  and a budget of at most \<open>LARGE\<close>, the brute-force test of the subtree returns, and
  \<open>sol_test_node\<close> returns the same time and contact point.
\<close>

lemma bsp_pruning_at_rest:
  assumes "bsp_ok fp k ni" and "node_ok fp k ni" and "0 \<le> ball_r up" and "dt \<le> LARGE"
  shows "\<exists>res. node_brute k dt T up fp ni oo (0, 0, 0) = Some res
    \<and> sol_test_node k dt T up fp ni oo (0, 0, 0) = Some res"
proof -
  from node_brute_returns [OF assms(2)] obtain res where
    b: "node_brute k dt T up fp ni oo (0, 0, 0) = Some res" by blast
  from prune_safe [OF assms(3) assms(1) assms(4) b] b show ?thesis by blast
qed

lemma lvl_bsp_ok: "bsp_ok lvl_bsp 2 0 \<and> node_ok lvl_bsp 2 0"
proof -
  have n: "(2::nat) = Suc (Suc 0)" by simp
  show ?thesis
    unfolding n
    by (simp add: lvl_bsp_def lvl_floor_def lvl_none_def rd_def in_range_def lump_beyond_def
        v_neg_def)
qed

lemma bsp_pruning_at_rest_lvl_bsp:
  "bsp_ok lvl_bsp 2 0 \<and> node_ok lvl_bsp 2 0
   \<and> \<not> sol_test_back 2 (mk_ball (0, 5, 0) (0, - 1, 0) 1) (rd (sv lvl_bsp) 1) (0, 0, 0) (0, 0, 0)
   \<and> sol_test_node 2 2 (0, 0, 0) (mk_ball (0, 5, 0) (0, - 1, 0) 1) lvl_bsp 0 (0, 0, 0) (0, 0, 0)
       = Some (2, (0, 0, 0))
   \<and> node_brute 2 2 (0, 0, 0) (mk_ball (0, 5, 0) (0, - 1, 0) 1) lvl_bsp 0 (0, 0, 0) (0, 0, 0)
       = Some (2, (0, 0, 0))"
proof -
  have r: "0 \<le> ball_r (mk_ball (0, 5, 0) (0, - 1, 0) 1)" by (simp add: mk_ball_def)
  have l: "(2::real) \<le> LARGE" by (simp add: LARGE_def)
  have n: "(2::nat) = Suc (Suc 0)" by simp
  have t: "sol_test_node 2 2 (0, 0, 0) (mk_ball (0, 5, 0) (0, - 1, 0) 1) lvl_bsp 0 (0, 0, 0) (0, 0, 0)
       = Some (2, (0, 0, 0))"
    unfolding n
    by (simp add: node_defs Let_def lvl_bsp_def lvl_floor_def lvl_none_def mk_ball_def rd_def
        v_zero_def LARGE_def L_DETAIL_def)
  have b: "\<not> sol_test_back 2 (mk_ball (0, 5, 0) (0, - 1, 0) 1) (rd (sv lvl_bsp) 1) (0, 0, 0) (0, 0, 0)"
    by (simp add: sol_test_back_def lvl_bsp_def lvl_floor_def lvl_none_def mk_ball_def rd_def)
  from bsp_pruning_at_rest [OF conjunct1 [OF lvl_bsp_ok] conjunct2 [OF lvl_bsp_ok] r l,
      of "(0, 0, 0)" "(0, 0, 0)"] t
  have "node_brute 2 2 (0, 0, 0) (mk_ball (0, 5, 0) (0, - 1, 0) 1) lvl_bsp 0 (0, 0, 0) (0, 0, 0)
       = Some (2, (0, 0, 0))"
    by auto
  with lvl_bsp_ok t b show ?thesis by simp
qed

lemma all_less_two: "(\<forall>i<(2::nat). P i) \<longleftrightarrow> P 0 \<and> P (Suc 0)"
  by (auto simp: less_2_cases_iff)

text \<open>
  \<open>sol_test_fore\<close> and \<open>sol_test_back\<close> take the velocity \<open>w\<close> of the body frame and do
  not use it: they move the ball by its own velocity and leave the plane where it is,
  while \<open>v_vert\<close>, \<open>v_edge\<close> and \<open>v_side\<close> test against the moving geometry.
\<close>

lemma sol_test_fore_frame:
  "sol_test_fore dt up sp oo w = sol_test_fore dt up sp oo w'"
  "sol_test_back dt up sp oo w = sol_test_back dt up sp oo w'"
  by (simp_all add: sol_test_fore_def sol_test_back_def)

text \<open>
  C1: the time returned by the node traversal equals the time of the brute-force test
  of every lump of the subtree, so that skipping a subtree never hides a contact. The
  code does not do that for a body that moves. In \<open>lvl_lift\<close> the node tree is consistent,
  and the frame that \<open>sol_body_p\<close> and \<open>sol_body_v\<close> give for the body on its path has
  origin \<open>(0, 0, 0)\<close> and velocity \<open>(0, - 2, 0)\<close>: the slab comes down on a ball of radius 1
  at rest at \<open>(0, - 3, 0)\<close>, below the splitting plane. With a budget of 2,
  \<open>sol_test_fore\<close> finds the ball behind the plane at both ends of the window and the
  traversal skips the front subtree: \<open>sol_test_node\<close> returns the budget 2, and
  \<open>sol_test_file\<close> reports no contact. The brute-force test finds the contact with the
  lower side of the slab at time \<open>3 / 2\<close>, at the point \<open>(0, - 2, 0)\<close>.
\<close>

theorem bsp_moving_frame_miss:
  "bsp_ok lvl_lift 2 0 \<and> node_ok lvl_lift 2 0
   \<and> \<not> sol_test_fore 2 (mk_ball (0, - 3, 0) (0, 0, 0) 1) (rd (sv lvl_lift) 0) (0, 0, 0) (0, - 2, 0)
   \<and> sol_test_node 2 2 (0, 0, 0) (mk_ball (0, - 3, 0) (0, 0, 0) 1) lvl_lift 0 (0, 0, 0) (0, - 2, 0)
       = Some (2, (0, 0, 0))
   \<and> node_brute 2 2 (0, 0, 0) (mk_ball (0, - 3, 0) (0, 0, 0) 1) lvl_lift 0 (0, 0, 0) (0, - 2, 0)
       = Some (3 / 2, (0, - 2, 0))
   \<and> sol_body_p lvl_lift (rd (bv lvl_lift) 0) = (0, 0, 0)
   \<and> sol_body_v lvl_lift (rd (bv lvl_lift) 0) = (0, - 2, 0)
   \<and> sol_test_file 2 2 (0, 0, 0) (0, 0, 0) (mk_ball (0, - 3, 0) (0, 0, 0) 1) lvl_lift
       = Some (2, (0, 0, 0), (0, 0, 0))"
proof -
  have n: "(2::nat) = Suc (Suc 0)" by simp
  have u: "[0 ..< 2] = [0, Suc 0]" by (simp add: upt_rec)
  have ok: "bsp_ok lvl_lift 2 0 \<and> node_ok lvl_lift 2 0"
    unfolding n
    by (simp add: lvl_lift_def lvl_floor_def lvl_none_def rd_def in_range_def lump_beyond_def
        v_neg_def all_less_two)
  have t: "sol_test_node 2 2 (0, 0, 0) (mk_ball (0, - 3, 0) (0, 0, 0) 1) lvl_lift 0 (0, 0, 0) (0, - 2, 0)
       = Some (2, (0, 0, 0))"
    unfolding n
    by (simp add: node_defs Let_def lvl_lift_def lvl_floor_def lvl_none_def mk_ball_def rd_def
        v_zero_def LARGE_def L_DETAIL_def)
  have b: "node_brute 2 2 (0, 0, 0) (mk_ball (0, - 3, 0) (0, 0, 0) 1) lvl_lift 0 (0, 0, 0) (0, - 2, 0)
       = Some (3 / 2, (0, - 2, 0))"
    unfolding n
    by (simp add: node_defs Let_def lvl_lift_def lvl_floor_def lvl_none_def mk_ball_def rd_def
        v_zero_def LARGE_def L_DETAIL_def u)
  have p: "sol_body_p lvl_lift (rd (bv lvl_lift) 0) = (0, 0, 0)"
    by (simp add: sol_body_p_def lvl_lift_def lvl_floor_def lvl_none_def rd_def)
  have v: "sol_body_v lvl_lift (rd (bv lvl_lift) 0) = (0, - 2, 0)"
    by (simp add: sol_body_v_def lvl_lift_def lvl_floor_def lvl_none_def rd_def Let_def)
  have bs: "bv lvl_lift = [rd (bv lvl_lift) 0]"
    by (simp add: lvl_lift_def lvl_floor_def lvl_none_def rd_def)
  have ni: "body_ni (rd (bv lvl_lift) 0) = 0"
    by (simp add: lvl_lift_def lvl_floor_def lvl_none_def rd_def)
  have f: "sol_test_file 2 2 (0, 0, 0) (0, 0, 0) (mk_ball (0, - 3, 0) (0, 0, 0) 1) lvl_lift
       = Some (2, (0, 0, 0), (0, 0, 0))"
    unfolding sol_test_file_def
    by (subst bs) (simp add: sol_test_body_def p v ni t v_zero_def)
  have s: "\<not> sol_test_fore 2 (mk_ball (0, - 3, 0) (0, 0, 0) 1) (rd (sv lvl_lift) 0)
      (0, 0, 0) (0, - 2, 0)"
    by (simp add: sol_test_fore_def lvl_lift_def lvl_floor_def lvl_none_def mk_ball_def rd_def)
  from ok s t b p v f show ?thesis by simp
qed

end
